theory Spec2Isabelle
  imports Main "HOL-Library.Word" "HOL-Library.AList"
begin

section \<open>JavaScript values\<close>

text \<open>
  A JavaScript string is a sequence of UTF-16 code units. Text typed by the user, chat ids,
  titles and questions are such strings. Fixed ASCII literals of the component (error
  banners, the calendar-day key) are kept as HOL strings.
\<close>

type_synonym jsstring = "16 word list"

text \<open>
  The values a message's \<open>createdAt\<close> field can hold: absent (\<open>undefined\<close>), \<open>null\<close>,
  a string (an ISO timestamp) or a number (milliseconds). \<open>truthy\<close> is JavaScript's
  conversion to a boolean as the conditional operator applies it (the number NaN, also
  falsy, is not among the integers modelled here).
\<close>

datatype jsvalue = Undefined | Null | Str jsstring | Num int

fun truthy :: "jsvalue \<Rightarrow> bool" where
  "truthy Undefined = False"
| "truthy Null = False"
| "truthy (Str s) = (s \<noteq> [])"
| "truthy (Num n) = (n \<noteq> 0)"

datatype exn = TypeError

text \<open>
  \<open>String.prototype.trim\<close> strips the code units of ECMAScript's WhiteSpace and
  LineTerminator productions from both ends.
\<close>

definition isWhiteSpace :: "16 word \<Rightarrow> bool" where
  "isWhiteSpace c =
     (c = 0x0009 \<or> c = 0x000A \<or> c = 0x000B \<or> c = 0x000C \<or> c = 0x000D \<or> c = 0x0020 \<or>
      c = 0x00A0 \<or> c = 0x1680 \<or> (0x2000 \<le> c \<and> c \<le> 0x200A) \<or> c = 0x2028 \<or>
      c = 0x2029 \<or> c = 0x202F \<or> c = 0x205F \<or> c = 0x3000 \<or> c = 0xFEFF)"

definition trim :: "jsstring \<Rightarrow> jsstring" where
  "trim s = rev (dropWhile isWhiteSpace (rev (dropWhile isWhiteSpace s)))"

section \<open>Timeline grouping (\<open>sections\<close> in chat-window.jsx)\<close>

text \<open>
  A \<open>Date\<close> object is its time value: an integer number of milliseconds, or NaN for an
  invalid date (\<open>None\<close>). The JavaScript runtime's \<open>Date\<close> is not part of the repository;
  it is a parameter: \<open>Date_new v\<close> is the time value of \<open>new Date(v)\<close>, and
  \<open>getFullYear\<close>, \<open>getMonth\<close>, \<open>getDate\<close> read the local calendar fields of a valid
  time value. \<open>new Date()\<close> reads the system clock; \<open>clock k\<close> is the reading of the
  \<open>k\<close>-th such call during one computation of \<open>sections\<close>. \<open>headerLabel\<close> is
  imported from utils and is a parameter as well.
\<close>

record runtime =
  Date_new :: "jsvalue \<Rightarrow> int option"
  getFullYear :: "int \<Rightarrow> int"
  getMonth :: "int \<Rightarrow> int"
  getDate :: "int \<Rightarrow> int"
  clock :: "nat \<Rightarrow> int"
  headerLabel :: "int \<Rightarrow> int \<Rightarrow> string"

record message =
  msg_id :: jsstring
  msg_type :: jsstring
  content :: jsstring
  createdAt :: jsvalue

text \<open>An item of a section is the message spread into a new object with the field \<open>_d\<close>.\<close>

record item = message +
  item_d :: int

record day_section =
  header :: string
  items :: "item list"

record loop_state =
  out :: "day_section list"
  currentKey :: "string option"
  reads :: nat

text \<open>The decimal digit of a number below ten.\<close>

definition digit :: "nat \<Rightarrow> char" where
  "digit n = ''0123456789'' ! n"

fun show_nat :: "nat \<Rightarrow> string" where
  "show_nat n = (if n < 10 then [digit n] else show_nat (n div 10) @ [digit (n mod 10)])"

declare show_nat.simps [simp del]

definition show_int :: "int \<Rightarrow> string" where
  "show_int i = (if i < 0 then CHR ''-'' # show_nat (nat (- i)) else show_nat (nat i))"

text \<open>The template string \<open>`${d.getFullYear()}-${d.getMonth()}-${d.getDate()}`\<close>.\<close>

definition dayKey :: "runtime \<Rightarrow> int \<Rightarrow> string" where
  "dayKey rt d =
     show_int (getFullYear rt d) @ ''-'' @ show_int (getMonth rt d) @ ''-'' @
     show_int (getDate rt d)"

text \<open>
  \<open>let d = m.createdAt ? new Date(m.createdAt) : new Date();
  if (isNaN(d.getTime())) d = new Date();\<close>
  The result is the date and the number of clock readings made so far.
\<close>

definition message_date :: "runtime \<Rightarrow> nat \<Rightarrow> message \<Rightarrow> int \<times> nat" where
  "message_date rt n m =
     (let (d0, n0) = (if truthy (createdAt m) then (Date_new rt (createdAt m), n)
                      else (Some (clock rt n), Suc n))
      in case d0 of None \<Rightarrow> (clock rt n0, Suc n0) | Some t \<Rightarrow> (t, n0))"

text \<open>
  \<open>out[out.length - 1].items.push(x)\<close>: on an empty \<open>out\<close> the read is \<open>undefined\<close>
  and the property access throws a TypeError.
\<close>

definition push_last :: "day_section list \<Rightarrow> item \<Rightarrow> exn + day_section list" where
  "push_last secs x =
     (if secs = [] then Inl TypeError
      else Inr (secs[length secs - 1 := (secs ! (length secs - 1))
                  \<lparr>items := items (secs ! (length secs - 1)) @ [x]\<rparr>]))"

text \<open>The body of the \<open>forEach\<close> callback; \<open>nw\<close> is the component's \<open>now\<close> state.\<close>

definition sections_step :: "runtime \<Rightarrow> int \<Rightarrow> loop_state \<Rightarrow> message \<Rightarrow> exn + loop_state" where
  "sections_step rt nw st m =
     (let (d, n) = message_date rt (reads st) m;
          key = dayKey rt d;
          st1 = (if Some key \<noteq> currentKey st
                 then st\<lparr>out := out st @ [\<lparr>header = headerLabel rt d nw, items = []\<rparr>],
                         currentKey := Some key\<rparr>
                 else st)
      in case push_last (out st1) (message.extend m (item.fields d)) of
           Inl e \<Rightarrow> Inl e
         | Inr secs \<Rightarrow> Inr (st1\<lparr>out := secs, reads := n\<rparr>))"

fun sections_forEach :: "runtime \<Rightarrow> int \<Rightarrow> loop_state \<Rightarrow> message list \<Rightarrow> exn + loop_state" where
  "sections_forEach rt nw st [] = Inr st"
| "sections_forEach rt nw st (m # ms) =
     (case sections_step rt nw st m of
        Inl e \<Rightarrow> Inl e
      | Inr st' \<Rightarrow> sections_forEach rt nw st' ms)"

definition sections :: "runtime \<Rightarrow> int \<Rightarrow> message list \<Rightarrow> exn + day_section list" where
  "sections rt nw messages =
     (if length messages = 0 then Inr []
      else case sections_forEach rt nw \<lparr>out = [], currentKey = None, reads = 0\<rparr> messages of
             Inl e \<Rightarrow> Inl e
           | Inr st \<Rightarrow> Inr (out st))"

text \<open>The items of a list of sections, in section order; \<open>message.truncate\<close> drops the
  added \<open>_d\<close> of an item.\<close>

definition flat_items :: "day_section list \<Rightarrow> item list" where
  "flat_items secs = concat (map items secs)"

definition one_day :: "runtime \<Rightarrow> day_section \<Rightarrow> bool" where
  "one_day rt s =
     (items s \<noteq> [] \<and> list_all (\<lambda>x. dayKey rt (item_d x) = dayKey rt (item_d (hd (items s)))) (items s))"


text \<open>
  The key of a section is the calendar-day key of its first item; \<open>day_runs\<close> says that
  neighbouring sections have different keys.
\<close>

definition section_key :: "runtime \<Rightarrow> day_section \<Rightarrow> string" where
  "section_key rt s = dayKey rt (item_d (hd (items s)))"

fun day_runs :: "runtime \<Rightarrow> day_section list \<Rightarrow> bool" where
  "day_runs rt (s # t # ss) = (section_key rt s \<noteq> section_key rt t \<and> day_runs rt (t # ss))"
| "day_runs rt ss = True"

text \<open>
  A message has no usable date when \<open>createdAt\<close> is falsy or \<open>new Date(createdAt)\<close> is
  an invalid date. \<open>dated rt n ms\<close> lists the items the loop builds for \<open>ms\<close> when \<open>n\<close>
  clock readings have been made before.
\<close>

definition date_missing :: "runtime \<Rightarrow> message \<Rightarrow> bool" where
  "date_missing rt m = (\<not> truthy (createdAt m) \<or> Date_new rt (createdAt m) = None)"

fun dated :: "runtime \<Rightarrow> nat \<Rightarrow> message list \<Rightarrow> item list" where
  "dated rt n [] = []"
| "dated rt n (m # ms) =
     message.extend m (item.fields (fst (message_date rt n m))) #
     dated rt (snd (message_date rt n m)) ms"

text \<open>The loop invariant: every section built so far is a non-empty run of one day, and
  \<open>currentKey\<close> is the key of the last section (\<open>null\<close> exactly while there is none).\<close>

definition sections_inv :: "runtime \<Rightarrow> loop_state \<Rightarrow> bool" where
  "sections_inv rt st =
     (list_all (one_day rt) (out st) \<and> day_runs rt (out st) \<and>
      (case currentKey st of
         None \<Rightarrow> out st = []
       | Some k \<Rightarrow> out st \<noteq> [] \<and> section_key rt (last (out st)) = k))"

section \<open>The session view: state, chat, data context\<close>

text \<open>
  \<open>chat.chatType\<close> is \<open>"regular"\<close> or \<open>"insight"\<close> (App.jsx sets no other value);
  \<open>insightData\<close> is present for insights only. Absent (\<open>undefined\<close>) strings are
  \<open>None\<close>.
\<close>

datatype chat_kind = Regular | Insight

record insight =
  userQuestion :: "jsstring option"

record chat =
  chat_id :: jsstring
  title :: "jsstring option"
  chatType :: chat_kind
  insightData :: "insight option"

record jsfile =
  file_name :: jsstring
  file_ref :: nat

record upload_task =
  task_id :: jsstring
  task_name :: jsstring
  progress :: int
  task_done :: bool
  task_error :: "string option"
  task_file :: jsfile

text \<open>
  Modelled from the spec: the data context (\<open>useData()\<close>, imported from
  contexts/data-context) is not among the files under src. By the interface the spec gives
  it, \<open>setMessage\<close> is a synchronous optimistic append without a failure, while
  \<open>loadMessages\<close>, \<open>sendMessage\<close> and \<open>uploadDocument\<close> are asynchronous and may fail.
  The component's calls into the context are recorded in a trace; what the context answers
  is a parameter of the continuation that receives the answer. \<open>UploadSettled\<close> records
  that the promise of an \<open>uploadDocument\<close> call has settled.
\<close>

datatype event =
    LoadMessages jsstring string
  | SetMessage jsstring jsstring
  | SendMessage jsstring jsstring string
  | UploadDocument jsstring jsfile
  | UploadSettled jsfile bool

text \<open>
  The component's state (\<open>useState\<close>) and refs (\<open>useRef\<close>), the trace, and the
  browser's pending timeouts (handle, upload id, delay) with the next handle
  \<open>setTimeout\<close> returns. The \<open>Map\<close> of removal timers keeps insertion order.
\<close>

record cw_state =
  inputValue :: jsstring
  isThinking :: bool
  isLoadingHistory :: bool
  loadError :: "string option"
  sendError :: "string option"
  isDragging :: bool
  uploads :: "upload_task list"
  now :: int
  removalTimersRef :: "(jsstring \<times> nat) list"
  autoAskedByThread :: "jsstring set"
  fetchedHistoryRef :: "jsstring set"
  trace :: "event list"
  timeouts :: "(nat \<times> jsstring \<times> nat) list"
  nextTimer :: nat

definition isInsight :: "chat \<Rightarrow> bool" where
  "isInsight c = (chatType c = Insight)"

text \<open>\<open>const chatType = isInsight ? "insight" : "question"\<close>\<close>

definition apiChatType :: "chat \<Rightarrow> string" where
  "apiChatType c = (if isInsight c then ''insight'' else ''question'')"

section \<open>Sending (\<open>send\<close>)\<close>

text \<open>
  \<open>text\<close> is \<open>Some t\<close> when \<open>typeof text === "string"\<close> (a suggestion chip, the
  imperative trigger, the automatic question) and \<open>None\<close> otherwise (click and Enter call
  \<open>send()\<close>).
\<close>

definition send_content :: "jsstring option \<Rightarrow> cw_state \<Rightarrow> jsstring" where
  "send_content text st = trim (case text of Some t \<Rightarrow> t | None \<Rightarrow> inputValue st)"

text \<open>
  \<open>send\<close> up to \<open>await sendMessage(...)\<close>. The flag says whether the function is now
  suspended at the \<open>await\<close>.
\<close>

definition send_begin :: "chat \<Rightarrow> jsstring option \<Rightarrow> cw_state \<Rightarrow> cw_state \<times> bool" where
  "send_begin c text st =
     (let content = send_content text st
      in if content = [] then (st, False)
         else
           let st1 = st\<lparr>sendError := None\<rparr>;
               st2 = st1\<lparr>isThinking := True\<rparr>;
               st3 = st2\<lparr>trace := trace st2 @ [SetMessage (chat_id c) content]\<rparr>;
               st4 = (if text = None then st3\<lparr>inputValue := []\<rparr> else st3);
               st5 = st4\<lparr>trace := trace st4 @ [SendMessage (chat_id c) content (apiChatType c)]\<rparr>
           in (st5, True))"

text \<open>
  The rest of \<open>send\<close> once the promise of \<open>sendMessage\<close> has settled: \<open>ok\<close> is
  whether it resolved. A rejection runs the \<open>catch\<close> block; \<open>finally\<close> runs in both.
\<close>

definition send_settle :: "bool \<Rightarrow> cw_state \<Rightarrow> cw_state" where
  "send_settle ok st =
     (let st1 = (if ok then st else st\<lparr>sendError := Some ''Failed to send. Please try again.''\<rparr>)
      in st1\<lparr>isThinking := False\<rparr>)"

text \<open>A whole \<open>send\<close> with nothing interleaved while the request is awaited.\<close>

definition send :: "chat \<Rightarrow> jsstring option \<Rightarrow> bool \<Rightarrow> cw_state \<Rightarrow> cw_state" where
  "send c text ok st =
     (case send_begin c text st of
        (st1, True) \<Rightarrow> send_settle ok st1
      | (st1, False) \<Rightarrow> st1)"

text \<open>The error banner is rendered while \<open>sendError\<close> is set; its close button clears it.\<close>

definition dismiss_sendError :: "cw_state \<Rightarrow> cw_state" where
  "dismiss_sendError st = st\<lparr>sendError := None\<rparr>"

section \<open>History loading (the effect on \<open>chat.id\<close>)\<close>

text \<open>
  The effect's async function up to \<open>await loadMessages(...)\<close>. A falsy id is the empty
  string. The flag says whether a \<open>loadMessages\<close> call is now awaited.
\<close>

definition history_effect_begin :: "chat \<Rightarrow> cw_state \<Rightarrow> cw_state \<times> bool" where
  "history_effect_begin c st =
     (if chat_id c = [] then (st, False)
      else if chat_id c \<in> fetchedHistoryRef st then (st, False)
      else
        let st1 = st\<lparr>fetchedHistoryRef := insert (chat_id c) (fetchedHistoryRef st)\<rparr>;
            st2 = st1\<lparr>isLoadingHistory := True\<rparr>;
            st3 = st2\<lparr>loadError := None\<rparr>
        in (st3\<lparr>trace := trace st3 @ [LoadMessages (chat_id c) (apiChatType c)]\<rparr>, True))"

text \<open>
  \<open>(chat?.insightData?.userQuestion || chat?.title || "").trim()\<close>: \<open>||\<close> passes over
  an absent and over an empty string.
\<close>

definition truthy_str :: "jsstring option \<Rightarrow> bool" where
  "truthy_str v = (case v of None \<Rightarrow> False | Some s \<Rightarrow> s \<noteq> [])"

definition js_or :: "jsstring option \<Rightarrow> jsstring option \<Rightarrow> jsstring option" where
  "js_or a b = (if truthy_str a then a else b)"

definition auto_question :: "chat \<Rightarrow> jsstring" where
  "auto_question c =
     (case js_or (js_or (case insightData c of None \<Rightarrow> None | Some i \<Rightarrow> userQuestion i) (title c))
                 (Some []) of
        None \<Rightarrow> []
      | Some s \<Rightarrow> trim s)"

datatype 'a settled = Resolved 'a | Rejected

text \<open>
  The effect's async function from the point where the promise of \<open>loadMessages\<close> has
  settled. \<open>cancelled\<close> is the value of the run's \<open>cancelled\<close> variable at that moment (the
  cleanup sets it). For a resolved load, the parameter is what \<open>selectMessages(chat.id)\<close>
  returns then (\<open>None\<close> for a nullish value, which \<open>|| []\<close> replaces). A rejection runs
  the \<open>catch\<close> block; \<open>finally\<close> runs on every path that does not stay suspended. The
  automatic question goes through \<open>sendRef.current\<close>, the \<open>send\<close> of the latest render,
  which is the \<open>send\<close> of this chat while the run is not cancelled. The second component
  is \<open>None\<close> when the function has finished, and \<open>Some b\<close> when it is suspended at
  \<open>await sendRef.current?.(q)\<close>, where \<open>b\<close> says whether that \<open>send\<close> awaits its request.
\<close>

definition history_effect_loaded ::
  "chat \<Rightarrow> bool \<Rightarrow> message list option settled \<Rightarrow> cw_state \<Rightarrow> cw_state \<times> bool option" where
  "history_effect_loaded c cancelled r st =
     (case r of
        Rejected \<Rightarrow>
          let st1 = st\<lparr>fetchedHistoryRef := fetchedHistoryRef st - {chat_id c}\<rparr>;
              st2 = (if \<not> cancelled then st1\<lparr>loadError := Some ''Could not load chat history.''\<rparr>
                     else st1)
          in (st2\<lparr>isLoadingHistory := False\<rparr>, None)
      | Resolved sel \<Rightarrow>
          if cancelled then (st\<lparr>isLoadingHistory := False\<rparr>, None)
          else if isInsight c \<and> chat_id c \<notin> autoAskedByThread st then
            let loaded = (case sel of None \<Rightarrow> [] | Some l \<Rightarrow> l);
                isEmpty = (length loaded = 0);
                q = auto_question c
            in if isEmpty \<and> q \<noteq> [] then
                 let st1 = st\<lparr>autoAskedByThread := insert (chat_id c) (autoAskedByThread st)\<rparr>
                 in (fst (send_begin c (Some q) st1), Some (snd (send_begin c (Some q) st1)))
               else (st\<lparr>isLoadingHistory := False\<rparr>, None)
          else (st\<lparr>isLoadingHistory := False\<rparr>, None))"

text \<open>
  The end of the effect's async function after the automatic \<open>send\<close> has returned. When
  that \<open>send\<close> awaited its request (\<open>pending\<close>), it finishes first (\<open>ok\<close>: whether the
  request resolved); then the effect's \<open>finally\<close> runs.
\<close>

definition history_effect_sent :: "bool \<Rightarrow> bool \<Rightarrow> cw_state \<Rightarrow> cw_state" where
  "history_effect_sent pending ok st =
     (let st1 = (if pending then send_settle ok st else st)
      in st1\<lparr>isLoadingHistory := False\<rparr>)"

text \<open>
  What can happen to one mounted component as far as the history effect goes: the effect
  runs for a chat (on mount, on a change of chat, on a strict-mode re-run after the
  cleanup), an awaited load settles for a run, an awaited automatic send settles.
\<close>

datatype hevent =
    EffectRun chat
  | LoadSettled chat bool "message list option settled"
  | AutoSendSettled bool bool

fun hstep :: "cw_state \<Rightarrow> hevent \<Rightarrow> cw_state" where
  "hstep st (EffectRun c) = fst (history_effect_begin c st)"
| "hstep st (LoadSettled c cancelled r) = fst (history_effect_loaded c cancelled r st)"
| "hstep st (AutoSendSettled pending ok) = history_effect_sent pending ok st"

definition hrun :: "cw_state \<Rightarrow> hevent list \<Rightarrow> cw_state" where
  "hrun st evs = foldl hstep st evs"

fun is_load :: "jsstring \<Rightarrow> event \<Rightarrow> bool" where
  "is_load i (LoadMessages j t) = (j = i)"
| "is_load i e = False"

fun is_send :: "jsstring \<Rightarrow> event \<Rightarrow> bool" where
  "is_send i (SendMessage j q t) = (j = i)"
| "is_send i e = False"

definition count_loads :: "jsstring \<Rightarrow> cw_state \<Rightarrow> nat" where
  "count_loads i st = length (filter (is_load i) (trace st))"

definition count_sends :: "jsstring \<Rightarrow> cw_state \<Rightarrow> nat" where
  "count_sends i st = length (filter (is_send i) (trace st))"

fun load_rejected :: "jsstring \<Rightarrow> hevent \<Rightarrow> bool" where
  "load_rejected i (LoadSettled c cancelled Rejected) = (chat_id c = i)"
| "load_rejected i e = False"

text \<open>The state of a freshly mounted component (\<open>starterMessage\<close> seeds the input).\<close>

definition mounted :: "jsstring \<Rightarrow> int \<Rightarrow> cw_state" where
  "mounted starter t =
     \<lparr>inputValue = starter, isThinking = False, isLoadingHistory = False, loadError = None,
      sendError = None, isDragging = False, uploads = [], now = t, removalTimersRef = [],
      autoAskedByThread = {}, fetchedHistoryRef = {}, trace = [], timeouts = [], nextTimer = 1\<rparr>"

section \<open>Route resolution (\<open>selectedFromUrl\<close> in App.jsx)\<close>

record stored_chat =
  sc_id :: jsstring
  sc_title :: "jsstring option"

record stored_insight =
  si_id :: jsstring
  si_title :: "jsstring option"
  si_userQuestion :: "jsstring option"

definition selectedFromUrl :: "jsstring option \<Rightarrow> stored_chat list \<Rightarrow> stored_insight list \<Rightarrow> chat option" where
  "selectedFromUrl threadId chats insights =
     (case threadId of
        None \<Rightarrow> None
      | Some tid \<Rightarrow>
          if tid = [] then None
          else case find (\<lambda>x. sc_id x = tid) chats of
                 Some c \<Rightarrow> Some \<lparr>chat_id = sc_id c, title = sc_title c, chatType = Regular,
                                 insightData = None\<rparr>
               | None \<Rightarrow>
                   (case find (\<lambda>x. si_id x = tid) insights of
                      Some i \<Rightarrow> Some \<lparr>chat_id = si_id i, title = si_title i, chatType = Insight,
                                      insightData = Some \<lparr>userQuestion = si_userQuestion i\<rparr>\<rparr>
                    | None \<Rightarrow> None))"

section \<open>Uploads (\<open>scheduleRemoval\<close>, \<open>beginUpload\<close>)\<close>

text \<open>
  \<open>scheduleRemoval(id, delay = 3000)\<close>: \<open>setTimeout\<close> registers a pending timeout and
  returns its handle.
\<close>

definition scheduleRemoval :: "jsstring \<Rightarrow> nat \<Rightarrow> cw_state \<Rightarrow> cw_state" where
  "scheduleRemoval i delay st =
     (if map_of (removalTimersRef st) i \<noteq> None then st
      else
        let t = nextTimer st;
            st1 = st\<lparr>timeouts := timeouts st @ [(t, i, delay)], nextTimer := Suc t\<rparr>
        in st1\<lparr>removalTimersRef := AList.update i t (removalTimersRef st1)\<rparr>)"

text \<open>The callback of the pending timeout with handle \<open>t\<close> runs (and the timeout is spent).\<close>

definition timer_fires :: "nat \<Rightarrow> cw_state \<Rightarrow> cw_state" where
  "timer_fires t st =
     (case find (\<lambda>p. fst p = t) (timeouts st) of
        None \<Rightarrow> st
      | Some (h, i, delay) \<Rightarrow>
          let st1 = st\<lparr>timeouts := filter (\<lambda>p. fst p \<noteq> t) (timeouts st)\<rparr>;
              st2 = st1\<lparr>uploads := filter (\<lambda>x. task_id x \<noteq> i) (uploads st1)\<rparr>
          in st2\<lparr>removalTimersRef := AList.delete i (removalTimersRef st2)\<rparr>)"

text \<open>The unmount cleanup: \<open>clearTimeout\<close> on every registered handle, then \<open>clear()\<close>.\<close>

definition unmount_timers :: "cw_state \<Rightarrow> cw_state" where
  "unmount_timers st =
     st\<lparr>timeouts := filter (\<lambda>p. fst p \<notin> snd ` set (removalTimersRef st)) (timeouts st),
        removalTimersRef := []\<rparr>"

text \<open>
  A real unmount followed by a new mount (App.jsx renders \<open>ChatWindow\<close> only while there is
  an active chat, and Back clears it): the unmount cleanup clears the registered timers, the
  state and the refs of the old component are gone, and the new component starts from its
  initial state with empty refs. The calls made so far (the trace) and the browser's timers
  are not the component's. What the old component still awaits settles on the old
  component's refs, with its \<open>cancelled\<close> variable set; events after a \<open>remount\<close> are
  those of the new component.
\<close>

definition remount :: "jsstring \<Rightarrow> int \<Rightarrow> cw_state \<Rightarrow> cw_state" where
  "remount starter t st =
     (mounted starter t)\<lparr>trace := trace st, timeouts := timeouts (unmount_timers st),
                         nextTimer := nextTimer st\<rparr>"

definition pending_removals :: "jsstring \<Rightarrow> cw_state \<Rightarrow> nat" where
  "pending_removals i st = length (filter (\<lambda>p. fst (snd p) = i) (timeouts st))"

text \<open>The pending timeouts are exactly the registered ones, one per id; handles are not
  reused and are older than the next handle.\<close>

definition timers_inv :: "cw_state \<Rightarrow> bool" where
  "timers_inv st =
     (map (\<lambda>p. (fst (snd p), fst p)) (timeouts st) = removalTimersRef st \<and>
      distinct (map fst (removalTimersRef st)) \<and>
      distinct (map fst (timeouts st)) \<and>
      list_all (\<lambda>p. fst p < nextTimer st) (timeouts st))"

text \<open>An ASCII literal as a JavaScript string.\<close>

definition js :: "string \<Rightarrow> jsstring" where
  "js s = map (\<lambda>c. of_nat (of_char c)) s"

text \<open>
  \<open>Array.from(files).map(...)\<close>: the id is \<open>`${chat.id}-${Date.now()}-${f.name}`\<close>;
  \<open>date_now k\<close> is what \<open>Date.now()\<close> returns for the \<open>k\<close>-th file.
\<close>

definition new_task :: "chat \<Rightarrow> int \<Rightarrow> jsfile \<Rightarrow> upload_task" where
  "new_task c t f =
     \<lparr>task_id = chat_id c @ js ''-'' @ js (show_int t) @ js ''-'' @ file_name f,
      task_name = file_name f, progress = 0, task_done = False, task_error = None,
      task_file = f\<rparr>"

definition make_items :: "chat \<Rightarrow> (nat \<Rightarrow> int) \<Rightarrow> jsfile list \<Rightarrow> upload_task list" where
  "make_items c date_now fs = map (\<lambda>(k, f). new_task c (date_now k) f) (enumerate 0 fs)"

text \<open>The three functional updates of \<open>uploads\<close> in the loop.\<close>

definition set_progress :: "jsstring \<Rightarrow> int \<Rightarrow> cw_state \<Rightarrow> cw_state" where
  "set_progress i pct st =
     st\<lparr>uploads := map (\<lambda>x. if task_id x = i then x\<lparr>progress := pct\<rparr> else x) (uploads st)\<rparr>"

definition mark_done :: "jsstring \<Rightarrow> cw_state \<Rightarrow> cw_state" where
  "mark_done i st =
     st\<lparr>uploads := map (\<lambda>x. if task_id x = i then x\<lparr>task_done := True, progress := 100\<rparr> else x)
                      (uploads st)\<rparr>"

definition mark_error :: "jsstring \<Rightarrow> cw_state \<Rightarrow> cw_state" where
  "mark_error i st =
     st\<lparr>uploads := map (\<lambda>x. if task_id x = i then x\<lparr>task_error := Some ''Upload failed''\<rparr> else x)
                      (uploads st)\<rparr>"

text \<open>
  \<open>beginUpload\<close> is an async function: between the call of \<open>uploadDocument\<close> and the
  settlement of its promise it is suspended at the \<open>await\<close>, and other handlers run. A
  \<open>batch\<close> is one call of \<open>beginUpload\<close> at such a point: the \<open>chat\<close> of its closure, its
  \<open>items\<close>, and the index \<open>b_pos\<close> of the item whose upload it awaits. The call has
  returned when \<open>b_pos\<close> is the length of \<open>items\<close>.
\<close>

record batch =
  b_chat :: chat
  b_items :: "upload_task list"
  b_pos :: nat

definition awaiting :: "batch \<Rightarrow> bool" where
  "awaiting b = (b_pos b < length (b_items b))"

text \<open>
  The head of a turn of the \<open>for ... of\<close> loop: with an item left,
  \<open>uploadDocument(chat.id, it.file, callback)\<close> is called and the function suspends at the
  \<open>await\<close>; with none left the function returns.
\<close>

definition upload_next :: "chat \<Rightarrow> upload_task list \<Rightarrow> nat \<Rightarrow> cw_state \<Rightarrow> cw_state \<times> batch" where
  "upload_next c its k st =
     ((if k < length its
       then st\<lparr>trace := trace st @ [UploadDocument (chat_id c) (task_file (its ! k))]\<rparr>
       else st),
      \<lparr>b_chat = c, b_items = its, b_pos = k\<rparr>)"

text \<open>
  \<open>beginUpload\<close> up to its first \<open>await\<close> (or to its return). \<open>files\<close> is \<open>None\<close> for a
  nullish argument.
\<close>

definition beginUpload ::
  "chat \<Rightarrow> (nat \<Rightarrow> int) \<Rightarrow> jsfile list option \<Rightarrow> cw_state \<Rightarrow> cw_state \<times> batch" where
  "beginUpload c date_now files st =
     (case files of
        None \<Rightarrow> (st, \<lparr>b_chat = c, b_items = [], b_pos = 0\<rparr>)
      | Some fs \<Rightarrow>
          if isInsight c \<or> length fs = 0 then (st, \<lparr>b_chat = c, b_items = [], b_pos = 0\<rparr>)
          else
            let its = make_items c date_now fs
            in upload_next c its 0 (st\<lparr>uploads := uploads st @ its\<rparr>))"

text \<open>
  The progress callback \<open>(pct) => setUploads(...)\<close> that the call of \<open>uploadDocument\<close> for
  the \<open>k\<close>-th item hands to the data context, invoked with a percentage. The callback
  exists once the upload of the item has been called; when (and whether) the data context
  invokes it is not the component's.
\<close>

definition upload_progress :: "batch \<Rightarrow> nat \<Rightarrow> int \<Rightarrow> cw_state \<Rightarrow> cw_state" where
  "upload_progress b k pct st =
     (if k < length (b_items b) \<and> k \<le> b_pos b
      then set_progress (task_id (b_items b ! k)) pct st
      else st)"

text \<open>
  \<open>beginUpload\<close> from the settlement of the awaited promise (\<open>ok\<close>: whether it resolved) to
  the next \<open>await\<close> or to the return: the rest of the \<open>try\<close> block or the \<open>catch\<close> block for
  the item, then the head of the next turn. A settlement reaches only a call that awaits
  one.
\<close>

definition upload_settled :: "batch \<Rightarrow> bool \<Rightarrow> cw_state \<Rightarrow> cw_state \<times> batch" where
  "upload_settled b ok st =
     (if \<not> awaiting b then (st, b)
      else
        let it = b_items b ! b_pos b;
            st1 = st\<lparr>trace := trace st @ [UploadSettled (task_file it) ok]\<rparr>;
            st2 = (if ok then scheduleRemoval (task_id it) 3000 (mark_done (task_id it) st1)
                   else scheduleRemoval (task_id it) 3000 (mark_error (task_id it) st1))
        in upload_next (b_chat b) (b_items b) (Suc (b_pos b)) st2)"

text \<open>The tasks a call of \<open>beginUpload\<close> creates.\<close>

definition batch_items :: "chat \<Rightarrow> (nat \<Rightarrow> int) \<Rightarrow> jsfile list option \<Rightarrow> upload_task list" where
  "batch_items c date_now files =
     (case files of
        None \<Rightarrow> []
      | Some fs \<Rightarrow> if isInsight c \<or> length fs = 0 then [] else make_items c date_now fs)"

text \<open>
  What can happen to the uploads of one mounted component: \<open>beginUpload\<close> is called (the
  file picker and the drop target call it without awaiting it, and nothing keeps a second
  call from starting while a first is suspended), the progress callback of the
  \<open>k\<close>-th upload of the \<open>n\<close>-th call is invoked, the awaited upload of the \<open>n\<close>-th call settles, a
  pending timeout fires. Calls of \<open>beginUpload\<close> are numbered in the order in which they are
  made.
\<close>

datatype uevent =
    Submit chat "nat \<Rightarrow> int" "jsfile list option"
  | Progress nat nat int
  | Settled nat bool
  | TimerFires nat

text \<open>
  The component together with its suspended calls of \<open>beginUpload\<close>. \<open>ulog\<close> is
  bookkeeping of the model, not state of the program: it notes, for every
  \<open>uploadDocument\<close> call and every settlement, which call of \<open>beginUpload\<close> it belongs to
  and which item it is about.
\<close>

datatype uact = Called nat | Finished nat bool

record usys =
  cw :: cw_state
  batches :: "batch list"
  ulog :: "(nat \<times> uact) list"

definition called :: "nat \<Rightarrow> batch \<Rightarrow> (nat \<times> uact) list" where
  "called n b = (if awaiting b then [(n, Called (b_pos b))] else [])"

fun ustep :: "usys \<Rightarrow> uevent \<Rightarrow> usys" where
  "ustep s (Submit c dn files) =
     (let r = beginUpload c dn files (cw s)
      in \<lparr>cw = fst r, batches = batches s @ [snd r],
          ulog = ulog s @ called (length (batches s)) (snd r)\<rparr>)"
| "ustep s (Progress n k pct) =
     (if n < length (batches s)
      then s\<lparr>cw := upload_progress (batches s ! n) k pct (cw s)\<rparr>
      else s)"
| "ustep s (Settled n ok) =
     (if n < length (batches s) \<and> awaiting (batches s ! n)
      then
        let r = upload_settled (batches s ! n) ok (cw s)
        in \<lparr>cw = fst r, batches = (batches s)[n := snd r],
            ulog = ulog s @ [(n, Finished (b_pos (batches s ! n)) ok)] @ called n (snd r)\<rparr>
      else s)"
| "ustep s (TimerFires t) = s\<lparr>cw := timer_fires t (cw s)\<rparr>"


definition urun :: "usys \<Rightarrow> uevent list \<Rightarrow> usys" where
  "urun s evs = foldl ustep s evs"


text \<open>
  Reading the bookkeeping. \<open>acts_of n\<close> are the entries of the \<open>n\<close>-th call of
  \<open>beginUpload\<close>. \<open>in_turns k\<close> holds of them when they go call of item \<open>k\<close>, its
  settlement, call of item \<open>k + 1\<close>, its settlement, and so on (the last call may still be
  unsettled): every call but the first follows the settlement of the call before it, and the
  items are taken in their order. \<open>event_of\<close> is the trace event that an entry stands for.
\<close>

definition acts_of :: "nat \<Rightarrow> (nat \<times> uact) list \<Rightarrow> uact list" where
  "acts_of n l = map snd (filter (\<lambda>p. fst p = n) l)"











section \<open>Concrete inputs\<close>

text \<open>
  A small runtime for evaluation: a number is its own time value, a string does not parse,
  a day has 100 time units, the year is 2024 and the month January; the clock starts at the
  beginning of the third day.
\<close>

definition ex_rt :: runtime where
  "ex_rt = \<lparr>Date_new = (\<lambda>v. case v of Num n \<Rightarrow> Some n | _ \<Rightarrow> None),
            getFullYear = (\<lambda>t. 2024), getMonth = (\<lambda>t. 0), getDate = (\<lambda>t. t div 100 + 1),
            clock = (\<lambda>k. 200 + int k),
            headerLabel = (\<lambda>d nw. if d div 100 = nw div 100 then ''Today'' else ''Earlier'')\<rparr>"

definition ex_msg :: "jsvalue \<Rightarrow> message" where
  "ex_msg v = \<lparr>msg_id = [], msg_type = [], content = [], createdAt = v\<rparr>"

text \<open>A regular chat and two insights: one with a question, one with a title only.\<close>

definition ex_chat :: chat where
  "ex_chat = \<lparr>chat_id = [0x63, 0x31], title = Some [0x54], chatType = Regular, insightData = None\<rparr>"

definition ex_insight :: chat where
  "ex_insight = \<lparr>chat_id = [0x69, 0x31], title = Some [0x54], chatType = Insight,
                 insightData = Some \<lparr>userQuestion = Some [0x20, 0x68, 0x69, 0x20]\<rparr>\<rparr>"

definition ex_titled :: chat where
  "ex_titled = \<lparr>chat_id = [0x69, 0x32], title = Some [0x54, 0x0A], chatType = Insight,
                insightData = Some \<lparr>userQuestion = Some []\<rparr>\<rparr>"




section \<open>Timeline grouping: proofs\<close>

lemma message_date_missing:
  "date_missing rt m \<Longrightarrow> message_date rt n m = (clock rt n, Suc n)"
  by (auto simp: date_missing_def message_date_def)

lemma message_date_present:
  "\<not> date_missing rt m \<Longrightarrow>
   \<exists>t. Date_new rt (createdAt m) = Some t \<and> message_date rt n m = (t, n)"
  by (auto simp: date_missing_def message_date_def)

lemma push_last_snoc:
  "push_last (ss @ [s]) x = Inr (ss @ [s\<lparr>items := items s @ [x]\<rparr>])"
  by (simp add: push_last_def nth_append)

lemma truncate_extend [simp]: "message.truncate (message.extend m (item.fields d)) = m"
  by (simp add: message.defs item.defs)

lemma item_d_extend [simp]: "item_d (message.extend m (item.fields d)) = d"
  by (simp add: message.defs item.defs)

lemma flat_items_snoc [simp]: "flat_items (ss @ [s]) = flat_items ss @ items s"
  by (simp add: flat_items_def)

lemma day_runs_snoc:
  "ss \<noteq> [] \<Longrightarrow>
   day_runs rt (ss @ [t]) = (day_runs rt ss \<and> section_key rt (last ss) \<noteq> section_key rt t)"
  by (induction rt ss rule: day_runs.induct) auto

lemma day_runs_same_key:
  "day_runs rt (ss @ [s]) \<Longrightarrow> section_key rt s' = section_key rt s \<Longrightarrow> day_runs rt (ss @ [s'])"
  by (cases "ss = []") (simp_all add: day_runs_snoc)

lemma sections_step_new:
  assumes "Some (dayKey rt (fst (message_date rt (reads st) m))) \<noteq> currentKey st"
  shows "sections_step rt nw st m =
    Inr \<lparr>out = out st @ [\<lparr>header = headerLabel rt (fst (message_date rt (reads st) m)) nw,
                          items = [message.extend m (item.fields (fst (message_date rt (reads st) m)))]\<rparr>],
         currentKey = Some (dayKey rt (fst (message_date rt (reads st) m))),
         reads = snd (message_date rt (reads st) m)\<rparr>"
  using assms by (simp add: sections_step_def Let_def split_beta push_last_snoc)

lemma sections_step_same:
  assumes "Some (dayKey rt (fst (message_date rt (reads st) m))) = currentKey st"
    and "out st = ss @ [s]"
  shows "sections_step rt nw st m =
    Inr \<lparr>out = ss @ [s\<lparr>items := items s @ [message.extend m (item.fields (fst (message_date rt (reads st) m)))]\<rparr>],
         currentKey = currentKey st,
         reads = snd (message_date rt (reads st) m)\<rparr>"
  using assms by (simp add: sections_step_def Let_def split_beta push_last_snoc)

lemma sections_step_inv:
  assumes "sections_inv rt st"
  shows "\<exists>st'. sections_step rt nw st m = Inr st' \<and> sections_inv rt st' \<and>
           flat_items (out st') =
             flat_items (out st) @ [message.extend m (item.fields (fst (message_date rt (reads st) m)))] \<and>
           reads st' = snd (message_date rt (reads st) m)"
proof (cases "Some (dayKey rt (fst (message_date rt (reads st) m))) = currentKey st")
  case True
  with assms have "out st \<noteq> []"
    by (auto simp: sections_inv_def split: option.splits)
  then obtain ss s where o: "out st = ss @ [s]"
    by (metis rev_exhaust)
  from assms o True have s: "one_day rt s" "list_all (one_day rt) ss" "day_runs rt (ss @ [s])"
    "section_key rt s = dayKey rt (fst (message_date rt (reads st) m))"
    by (auto simp: sections_inv_def split: option.splits)
  let ?s' = "s\<lparr>items := items s @ [message.extend m (item.fields (fst (message_date rt (reads st) m)))]\<rparr>"
  have k: "section_key rt ?s' = section_key rt s"
    using s(1) by (simp add: section_key_def one_day_def)
  have d: "day_runs rt (ss @ [?s'])"
    using day_runs_same_key[OF s(3) k] .
  have o': "one_day rt ?s'"
    using s(1) s(4) by (simp add: one_day_def section_key_def)
  show ?thesis
    using sections_step_same[OF True o, of nw] s(2) d o' k s(4) True[symmetric] o
    by (simp add: sections_inv_def)
next
  case False
  let ?d = "fst (message_date rt (reads st) m)"
  let ?t = "\<lparr>header = headerLabel rt ?d nw, items = [message.extend m (item.fields ?d)]\<rparr>"
  have k: "section_key rt ?t = dayKey rt ?d"
    by (simp add: section_key_def)
  have o: "one_day rt ?t"
    by (simp add: one_day_def)
  have d: "day_runs rt (out st @ [?t])"
  proof (cases "out st = []")
    case True
    then show ?thesis by simp
  next
    case ne: False
    with assms False have "section_key rt (last (out st)) \<noteq> dayKey rt ?d" "day_runs rt (out st)"
      by (auto simp: sections_inv_def split: option.splits)
    then show ?thesis using ne k by (simp add: day_runs_snoc)
  qed
  show ?thesis
    using sections_step_new[OF False, of nw] assms o d k
    by (simp add: sections_inv_def)
qed

lemma sections_forEach_inv:
  "sections_inv rt st \<Longrightarrow>
   \<exists>st'. sections_forEach rt nw st ms = Inr st' \<and> sections_inv rt st' \<and>
         flat_items (out st') = flat_items (out st) @ dated rt (reads st) ms"
proof (induction ms arbitrary: st)
  case Nil
  then show ?case by simp
next
  case (Cons m ms)
  from sections_step_inv[OF Cons.prems, of nw m] obtain st1 where
    1: "sections_step rt nw st m = Inr st1" "sections_inv rt st1"
       "flat_items (out st1) =
          flat_items (out st) @ [message.extend m (item.fields (fst (message_date rt (reads st) m)))]"
       "reads st1 = snd (message_date rt (reads st) m)"
    by blast
  from Cons.IH[OF 1(2)] obtain st' where
    2: "sections_forEach rt nw st1 ms = Inr st'" "sections_inv rt st'"
       "flat_items (out st') = flat_items (out st1) @ dated rt (reads st1) ms"
    by blast
  show ?case using 1 2 by simp
qed

lemma sections_inv_init: "sections_inv rt \<lparr>out = [], currentKey = None, reads = 0\<rparr>"
  by (simp add: sections_inv_def)

lemma sections_total:
  "\<exists>secs. sections rt nw ms = Inr secs \<and> list_all (one_day rt) secs \<and> day_runs rt secs \<and>
          flat_items secs = dated rt 0 ms"
proof (cases "ms = []")
  case True
  then show ?thesis by (simp add: sections_def flat_items_def)
next
  case False
  from sections_forEach_inv[OF sections_inv_init, of rt nw ms] obtain st' where
    "sections_forEach rt nw \<lparr>out = [], currentKey = None, reads = 0\<rparr> ms = Inr st'"
    "sections_inv rt st'" "flat_items (out st') = dated rt 0 ms"
    by (auto simp: flat_items_def)
  then show ?thesis using False by (auto simp: sections_def sections_inv_def)
qed

lemma map_truncate_dated: "map message.truncate (dated rt n ms) = ms"
  by (induction ms arbitrary: n) auto

lemma length_dated [simp]: "length (dated rt n ms) = length ms"
  by (induction ms arbitrary: n) auto

lemma dated_nth_missing:
  "i < length ms \<Longrightarrow> date_missing rt (ms ! i) \<Longrightarrow>
   item_d (dated rt n ms ! i) = clock rt (n + length (filter (date_missing rt) (take i ms)))"
proof (induction ms arbitrary: n i)
  case Nil
  then show ?case by simp
next
  case (Cons m ms)
  show ?case
  proof (cases i)
    case 0
    with Cons.prems show ?thesis by (simp add: message_date_missing)
  next
    case (Suc j)
    with Cons.prems have j: "j < length ms" "date_missing rt (ms ! j)" by auto
    show ?thesis
    proof (cases "date_missing rt m")
      case True
      then show ?thesis using Cons.IH[OF j, of "Suc n"] Suc by (simp add: message_date_missing)
    next
      case False
      then obtain t where "message_date rt n m = (t, n)" using message_date_present by blast
      then show ?thesis using Cons.IH[OF j, of n] Suc False by simp
    qed
  qed
qed

lemma show_nat_numeral [simp]:
  "show_nat (numeral k) =
     (if numeral k < (10::nat) then [digit (numeral k)]
      else show_nat (numeral k div 10) @ [digit (numeral k mod 10)])"
  "show_nat 0 = ''0''"
  "show_nat (Suc 0) = ''1''"
  by (simp_all add: show_nat.simps[of "numeral k"] show_nat.simps[of 0] show_nat.simps[of "Suc 0"] digit_def)

lemmas sections_eval =
  sections_def sections_step_def message_date_def dayKey_def push_last_def show_int_def
  digit_def message.defs item.defs flat_items_def one_day_def section_key_def date_missing_def

text \<open>
  C1. For every list of messages, \<open>sections\<close> returns (it does not throw), and the sections
  partition the list: their items, concatenated in section order and without the added
  \<open>_d\<close>, are the original list, so every message occurs in exactly one section, at its
  place. No section is empty, the items of a section share one calendar-day key, and
  neighbouring sections have different keys.
\<close>

theorem sections_partition:
  "\<exists>secs. sections rt nw ms = Inr secs \<and>
          map message.truncate (flat_items secs) = ms \<and>
          length (flat_items secs) = length ms \<and>
          list_all (one_day rt) secs \<and> day_runs rt secs"
proof -
  from sections_total[of rt nw ms] obtain secs where
    s: "sections rt nw ms = Inr secs" "list_all (one_day rt) secs" "day_runs rt secs"
       "flat_items secs = dated rt 0 ms"
    by blast
  then show ?thesis by (simp add: map_truncate_dated)
qed

text \<open>The spec's example: two messages of one day and one of the next give two sections, of
  two items and of one.\<close>

theorem sections_partition_witness:
  "sections ex_rt 250 [ex_msg (Num 10), ex_msg (Num 50), ex_msg (Num 120)] =
     Inr [\<lparr>header = ''Earlier'',
           items = [message.extend (ex_msg (Num 10)) (item.fields 10),
                    message.extend (ex_msg (Num 50)) (item.fields 50)]\<rparr>,
          \<lparr>header = ''Earlier'',
           items = [message.extend (ex_msg (Num 120)) (item.fields 120)]\<rparr>] \<and>
   (\<exists>secs. sections ex_rt 250 [ex_msg (Num 10), ex_msg (Num 50), ex_msg (Num 120)] = Inr secs \<and>
      map message.truncate (flat_items secs) = [ex_msg (Num 10), ex_msg (Num 50), ex_msg (Num 120)] \<and>
      length (flat_items secs) = 3 \<and> list_all (one_day ex_rt) secs \<and> day_runs ex_rt secs)"
  using sections_partition[of ex_rt 250 "[ex_msg (Num 10), ex_msg (Num 50), ex_msg (Num 120)]"]
  by (simp add: sections_eval ex_rt_def ex_msg_def)

text \<open>
  C9. When the \<open>createdAt\<close> of the message at position \<open>i\<close> is missing (falsy) or does
  not parse to a valid date, \<open>sections\<close> still returns, the item built for that message
  carries a reading of the system clock as its date (the reading number is the count of
  such messages before it), and the section that holds the item consists of items of that
  reading's calendar day only.
\<close>

theorem sections_missing_date:
  assumes "i < length ms"
    and "\<not> truthy (createdAt (ms ! i)) \<or> Date_new rt (createdAt (ms ! i)) = None"
  shows "\<exists>secs. sections rt nw ms = Inr secs \<and>
           message.truncate (flat_items secs ! i) = ms ! i \<and>
           item_d (flat_items secs ! i) =
             clock rt (length (filter (date_missing rt) (take i ms))) \<and>
           (\<exists>s \<in> set secs. flat_items secs ! i \<in> set (items s) \<and>
              list_all (\<lambda>y. dayKey rt (item_d y) =
                 dayKey rt (clock rt (length (filter (date_missing rt) (take i ms))))) (items s))"
proof -
  from sections_total[of rt nw ms] obtain secs where
    s: "sections rt nw ms = Inr secs" "list_all (one_day rt) secs"
       "flat_items secs = dated rt 0 ms"
    by blast
  let ?x = "flat_items secs ! i"
  have m: "date_missing rt (ms ! i)"
    using assms(2) by (simp add: date_missing_def)
  have d: "item_d ?x = clock rt (length (filter (date_missing rt) (take i ms)))"
    using dated_nth_missing[OF assms(1) m, of 0] s(3) by simp
  have "map message.truncate (dated rt 0 ms) ! i = message.truncate (dated rt 0 ms ! i)"
    using assms(1) by (simp only: nth_map length_dated)
  then have t: "message.truncate ?x = ms ! i"
    by (simp only: map_truncate_dated s(3))
  have "?x \<in> set (flat_items secs)"
    using assms(1) s(3) by simp
  then have "\<exists>sec \<in> set secs. ?x \<in> set (items sec)"
    unfolding flat_items_def by simp
  then obtain sec where sec: "sec \<in> set secs" "?x \<in> set (items sec)"
    by blast
  from s(2) sec(1) have o: "one_day rt sec"
    by (simp only: list_all_iff)
  define K where "K = dayKey rt (item_d (hd (items sec)))"
  from o have al: "\<forall>y \<in> set (items sec). dayKey rt (item_d y) = K"
    unfolding one_day_def list_all_iff K_def by (rule conjunct2)
  from al sec(2) have "dayKey rt (item_d ?x) = K"
    by (rule bspec)
  then have "K = dayKey rt (clock rt (length (filter (date_missing rt) (take i ms))))"
    by (simp only: d)
  with al have a: "list_all (\<lambda>y. dayKey rt (item_d y) =
      dayKey rt (clock rt (length (filter (date_missing rt) (take i ms))))) (items sec)"
    by (simp only: list_all_iff)
  have "\<exists>s \<in> set secs. ?x \<in> set (items s) \<and>
      list_all (\<lambda>y. dayKey rt (item_d y) =
         dayKey rt (clock rt (length (filter (date_missing rt) (take i ms))))) (items s)"
    using sec a by (intro bexI[of _ sec] conjI)
  with s(1) t d show ?thesis
    by (intro exI[of _ secs] conjI)
qed

theorem sections_missing_date_witness:
  "sections ex_rt 250 [ex_msg (Num 10), ex_msg Undefined, ex_msg (Str [0x3F])] =
     Inr [\<lparr>header = ''Earlier'', items = [message.extend (ex_msg (Num 10)) (item.fields 10)]\<rparr>,
          \<lparr>header = ''Today'',
           items = [message.extend (ex_msg Undefined) (item.fields 200),
                    message.extend (ex_msg (Str [0x3F])) (item.fields 201)]\<rparr>] \<and>
   (\<exists>secs. sections ex_rt 250 [ex_msg (Num 10), ex_msg Undefined, ex_msg (Str [0x3F])] = Inr secs \<and>
      message.truncate (flat_items secs ! 2) = ex_msg (Str [0x3F]) \<and>
      item_d (flat_items secs ! 2) = clock ex_rt 1 \<and>
      (\<exists>s \<in> set secs. flat_items secs ! 2 \<in> set (items s) \<and>
         list_all (\<lambda>y. dayKey ex_rt (item_d y) = dayKey ex_rt (clock ex_rt 1)) (items s)))"
proof -
  have h: "2 < length [ex_msg (Num 10), ex_msg Undefined, ex_msg (Str [0x3F])]"
    "\<not> truthy (createdAt ([ex_msg (Num 10), ex_msg Undefined, ex_msg (Str [0x3F])] ! 2)) \<or>
     Date_new ex_rt (createdAt ([ex_msg (Num 10), ex_msg Undefined, ex_msg (Str [0x3F])] ! 2)) = None"
    by (simp_all add: ex_rt_def ex_msg_def)
  have e: "sections ex_rt 250 [ex_msg (Num 10), ex_msg Undefined, ex_msg (Str [0x3F])] =
     Inr [\<lparr>header = ''Earlier'', items = [message.extend (ex_msg (Num 10)) (item.fields 10)]\<rparr>,
          \<lparr>header = ''Today'',
           items = [message.extend (ex_msg Undefined) (item.fields 200),
                    message.extend (ex_msg (Str [0x3F])) (item.fields 201)]\<rparr>]"
    by (simp add: sections_eval ex_rt_def ex_msg_def)
  have c: "length (filter (date_missing ex_rt) (take 2 [ex_msg (Num 10), ex_msg Undefined, ex_msg (Str [0x3F])])) = 1"
    by (simp add: date_missing_def ex_rt_def ex_msg_def)
  show ?thesis
    using sections_missing_date[OF h, of 250] e c by simp
qed

section \<open>Sending: proofs\<close>

lemma dropWhile_all_iff: "(\<forall>x \<in> set (dropWhile P xs). P x) \<longleftrightarrow> dropWhile P xs = []"
proof
  assume a: "\<forall>x \<in> set (dropWhile P xs). P x"
  show "dropWhile P xs = []"
  proof (rule ccontr)
    assume n: "dropWhile P xs \<noteq> []"
    then have "\<not> P (hd (dropWhile P xs))" by (rule hd_dropWhile)
    moreover have "hd (dropWhile P xs) \<in> set (dropWhile P xs)" using n by (rule hd_in_set)
    ultimately show False using a by blast
  qed
next
  assume e: "dropWhile P xs = []"
  show "\<forall>x \<in> set (dropWhile P xs). P x" unfolding e by simp
qed

lemma trim_empty_iff: "trim s = [] \<longleftrightarrow> list_all isWhiteSpace s"
proof -
  have "trim s = [] \<longleftrightarrow> (\<forall>x \<in> set (dropWhile isWhiteSpace s). isWhiteSpace x)"
    by (simp add: trim_def dropWhile_eq_Nil_conv)
  also have "\<dots> \<longleftrightarrow> dropWhile isWhiteSpace s = []"
    by (rule dropWhile_all_iff)
  also have "\<dots> \<longleftrightarrow> list_all isWhiteSpace s"
    by (simp add: dropWhile_eq_Nil_conv list_all_iff)
  finally show ?thesis .
qed

lemma drop_end_head:
  assumes "\<not> P x"
  shows "\<exists>ys. rev (dropWhile P (rev (x # t))) = x # ys"
proof (cases "\<forall>y \<in> set (rev t). P y")
  case True
  then have "dropWhile P (rev t @ [x]) = [x]"
    using assms by (simp add: dropWhile_append)
  then have "rev (dropWhile P (rev (x # t))) = x # []" by simp
  then show ?thesis by (rule exI)
next
  case False
  then have "dropWhile P (rev t @ [x]) = dropWhile P (rev t) @ [x]"
    by (auto simp: dropWhile_append)
  then have "rev (dropWhile P (rev (x # t))) = x # rev (dropWhile P (rev t))" by simp
  then show ?thesis by (rule exI)
qed

lemma trim_Nil [simp]: "trim [] = []"
  by (simp add: trim_def)

lemma trim_idem: "trim (trim s) = trim s"
proof (cases "trim s = []")
  case True
  then show ?thesis by (simp only: True trim_Nil)
next
  case False
  let ?t = "dropWhile isWhiteSpace s"
  have ne: "?t \<noteq> []"
  proof
    assume e: "?t = []"
    have "trim s = []" unfolding trim_def e by simp
    with False show False by contradiction
  qed
  then obtain x t where t: "?t = x # t" by (cases ?t) auto
  have nx: "\<not> isWhiteSpace x"
    using hd_dropWhile[OF ne] t by simp
  from drop_end_head[of isWhiteSpace x t, OF nx] obtain ys where ys: "trim s = x # ys"
    unfolding trim_def t by blast
  have a: "dropWhile isWhiteSpace (trim s) = trim s"
    using nx by (simp add: ys)
  have "trim (trim s) = rev (dropWhile isWhiteSpace (rev (dropWhile isWhiteSpace (trim s))))"
    by (rule trim_def)
  also have "\<dots> = rev (dropWhile isWhiteSpace (rev (trim s)))"
    by (simp only: a)
  also have "\<dots> = trim s"
    by (simp only: trim_def rev_rev_ident dropWhile_idem)
  finally show ?thesis .
qed

lemma send_begin_blank: "send_content text st = [] \<Longrightarrow> send_begin c text st = (st, False)"
  by (simp add: send_begin_def)

lemma send_begin_typed:
  "send_content None st \<noteq> [] \<Longrightarrow>
   send_begin c None st =
     (st\<lparr>sendError := None, isThinking := True, inputValue := [],
         trace := trace st @ [SetMessage (chat_id c) (send_content None st),
                              SendMessage (chat_id c) (send_content None st) (apiChatType c)]\<rparr>,
      True)"
  by (simp add: send_begin_def Let_def)

lemma send_begin_given:
  "send_content (Some t) st \<noteq> [] \<Longrightarrow>
   send_begin c (Some t) st =
     (st\<lparr>sendError := None, isThinking := True,
         trace := trace st @ [SetMessage (chat_id c) (send_content (Some t) st),
                              SendMessage (chat_id c) (send_content (Some t) st) (apiChatType c)]\<rparr>,
      True)"
  by (simp add: send_begin_def Let_def)

lemma isWhiteSpace_numeral [simp]:
  "isWhiteSpace (numeral k) =
     (numeral k = (0x0009 :: 16 word) \<or> numeral k = (0x000A :: 16 word) \<or>
      numeral k = (0x000B :: 16 word) \<or> numeral k = (0x000C :: 16 word) \<or>
      numeral k = (0x000D :: 16 word) \<or> numeral k = (0x0020 :: 16 word) \<or>
      numeral k = (0x00A0 :: 16 word) \<or> numeral k = (0x1680 :: 16 word) \<or>
      ((0x2000 :: 16 word) \<le> numeral k \<and> numeral k \<le> (0x200A :: 16 word)) \<or>
      numeral k = (0x2028 :: 16 word) \<or> numeral k = (0x2029 :: 16 word) \<or>
      numeral k = (0x202F :: 16 word) \<or> numeral k = (0x205F :: 16 word) \<or>
      numeral k = (0x3000 :: 16 word) \<or> numeral k = (0xFEFF :: 16 word))"
  by (simp add: isWhiteSpace_def)

lemmas send_eval =
  send_def send_begin_def send_settle_def send_content_def trim_def mounted_def apiChatType_def
  isInsight_def dismiss_sendError_def Let_def

text \<open>
  C2, as stated, fails: the draft "hi" is sent from the input field, the request fails, and
  the input is empty afterwards.
\<close>

theorem send_failure_keeps_draft_counterexample:
  "send_content None (mounted [0x68, 0x69] 0) = [0x68, 0x69] \<and>
   inputValue (send ex_chat None False (mounted [0x68, 0x69] 0)) \<noteq> [0x68, 0x69] \<and>
   inputValue (send ex_chat None False (mounted [0x68, 0x69] 0)) = []"
  by (simp add: send_eval ex_chat_def)

text \<open>
  C2, amended. For every send from the input field whose trimmed text is not empty: the
  text is handed to the optimistic append and to the send operation, and the input is
  cleared before the request is awaited; when the request fails the input is therefore
  empty, exactly one send error is set (the banner's close button clears it), and
  \<open>isThinking\<close> is off again. The part of \<open>send\<close> that runs after the failure leaves
  \<open>inputValue\<close> as it finds it.
\<close>

theorem send_failure_clears_input:
  assumes "send_content None st \<noteq> []"
  shows "inputValue (send c None False st) = [] \<and>
         sendError (send c None False st) = Some ''Failed to send. Please try again.'' \<and>
         sendError (dismiss_sendError (send c None False st)) = None \<and>
         isThinking (send c None False st) = False \<and>
         trace (send c None False st) =
           trace st @ [SetMessage (chat_id c) (send_content None st),
                       SendMessage (chat_id c) (send_content None st) (apiChatType c)] \<and>
         (\<forall>s. inputValue (send_settle False s) = inputValue s \<and>
              sendError (send_settle False s) = Some ''Failed to send. Please try again.'')"
  using assms
  by (simp add: send_def send_begin_typed send_settle_def dismiss_sendError_def)

theorem send_failure_clears_input_witness:
  "send_content None (mounted [0x20, 0x68, 0x69] 0) \<noteq> [] \<and>
   inputValue (send ex_chat None False (mounted [0x20, 0x68, 0x69] 0)) = [] \<and>
   sendError (send ex_chat None False (mounted [0x20, 0x68, 0x69] 0)) =
     Some ''Failed to send. Please try again.'' \<and>
   trace (send ex_chat None False (mounted [0x20, 0x68, 0x69] 0)) =
     [SetMessage [0x63, 0x31] [0x68, 0x69], SendMessage [0x63, 0x31] [0x68, 0x69] ''question'']"
proof -
  have h: "send_content None (mounted [0x20, 0x68, 0x69] 0) \<noteq> []"
    by (simp add: send_eval)
  have t: "send_content None (mounted [0x20, 0x68, 0x69] 0) = [0x68, 0x69]"
    by (simp add: send_eval)
  show ?thesis
    using send_failure_clears_input[OF h, of ex_chat] t
    by (simp add: ex_chat_def apiChatType_def isInsight_def mounted_def)
qed

text \<open>
  C3. When the text to send (the argument if it is a string, the input field otherwise) is
  empty or consists of whitespace only, \<open>send\<close> returns at once: the state, with its trace
  of calls into the data context, is unchanged, so neither the send operation nor the
  optimistic append is called, whatever the outcome a request would have had.
\<close>

theorem send_blank_noop:
  assumes "list_all isWhiteSpace (case text of Some t \<Rightarrow> t | None \<Rightarrow> inputValue st)"
  shows "send_begin c text st = (st, False) \<and> send c text ok st = st \<and>
         trace (send c text ok st) = trace st"
proof -
  from assms have "send_content text st = []"
    by (simp add: send_content_def trim_empty_iff)
  then show ?thesis
    by (simp add: send_def send_begin_blank)
qed

theorem send_blank_noop_witness:
  "list_all isWhiteSpace (case Some [0x20, 0x09, 0x2003, 0xA0] of Some t \<Rightarrow> t
                          | None \<Rightarrow> inputValue (mounted [0x68] 0)) \<and>
   list_all isWhiteSpace (case None of Some t \<Rightarrow> t | None \<Rightarrow> inputValue (mounted [0x0A, 0x20] 0)) \<and>
   send ex_chat (Some [0x20, 0x09, 0x2003, 0xA0]) True (mounted [0x68] 0) = mounted [0x68] 0 \<and>
   send ex_chat None False (mounted [0x0A, 0x20] 0) = mounted [0x0A, 0x20] 0"
proof -
  have h1: "list_all isWhiteSpace (case Some [0x20, 0x09, 0x2003, 0xA0] of Some t \<Rightarrow> t
                          | None \<Rightarrow> inputValue (mounted [0x68] 0))"
    by simp
  have h2: "list_all isWhiteSpace (case None of Some t \<Rightarrow> t | None \<Rightarrow> inputValue (mounted [0x0A, 0x20] 0))"
    by (simp add: mounted_def)
  show ?thesis
    using h1 h2 send_blank_noop[OF h1, of ex_chat True] send_blank_noop[OF h2, of ex_chat False]
    by simp
qed

section \<open>History loading: proofs\<close>

lemma send_begin_refs [simp]:
  "fetchedHistoryRef (fst (send_begin c t st)) = fetchedHistoryRef st"
  "autoAskedByThread (fst (send_begin c t st)) = autoAskedByThread st"
  by (simp_all add: send_begin_def Let_def)

lemma send_begin_loads [simp]:
  "filter (is_load i) (trace (fst (send_begin c t st))) = filter (is_load i) (trace st)"
  by (simp add: send_begin_def Let_def)

lemma send_begin_sends:
  "filter (is_send i) (trace (fst (send_begin c t st))) =
     filter (is_send i) (trace st) @
     (if send_content t st \<noteq> [] \<and> chat_id c = i
      then [SendMessage (chat_id c) (send_content t st) (apiChatType c)] else [])"
  by (simp add: send_begin_def Let_def)

lemma send_settle_keeps [simp]:
  "fetchedHistoryRef (send_settle ok st) = fetchedHistoryRef st"
  "autoAskedByThread (send_settle ok st) = autoAskedByThread st"
  "trace (send_settle ok st) = trace st"
  by (simp_all add: send_settle_def)

lemma history_effect_sent_keeps [simp]:
  "fetchedHistoryRef (history_effect_sent p ok st) = fetchedHistoryRef st"
  "autoAskedByThread (history_effect_sent p ok st) = autoAskedByThread st"
  "trace (history_effect_sent p ok st) = trace st"
  by (simp_all add: history_effect_sent_def)

lemma history_effect_begin_fresh:
  "chat_id c \<noteq> [] \<Longrightarrow> chat_id c \<notin> fetchedHistoryRef st \<Longrightarrow>
   history_effect_begin c st =
     (st\<lparr>fetchedHistoryRef := insert (chat_id c) (fetchedHistoryRef st), isLoadingHistory := True,
         loadError := None, trace := trace st @ [LoadMessages (chat_id c) (apiChatType c)]\<rparr>, True)"
  by (simp add: history_effect_begin_def)

lemma history_effect_begin_guarded:
  "chat_id c \<in> fetchedHistoryRef st \<Longrightarrow> history_effect_begin c st = (st, False)"
  by (simp add: history_effect_begin_def)

lemma history_effect_begin_other:
  "chat_id c \<noteq> i \<Longrightarrow>
   filter (is_load i) (trace (fst (history_effect_begin c st))) = filter (is_load i) (trace st) \<and>
   (i \<in> fetchedHistoryRef (fst (history_effect_begin c st)) \<longleftrightarrow> i \<in> fetchedHistoryRef st)"
  by (simp add: history_effect_begin_def)

lemma history_effect_begin_keeps [simp]:
  "autoAskedByThread (fst (history_effect_begin c st)) = autoAskedByThread st"
  "filter (is_send i) (trace (fst (history_effect_begin c st))) = filter (is_send i) (trace st)"
  by (simp_all add: history_effect_begin_def)

lemma history_effect_loaded_loads [simp]:
  "filter (is_load i) (trace (fst (history_effect_loaded c cancelled r st))) =
   filter (is_load i) (trace st)"
  by (simp add: history_effect_loaded_def Let_def split: settled.splits)

lemma history_effect_loaded_resolved_guard [simp]:
  "fetchedHistoryRef (fst (history_effect_loaded c cancelled (Resolved sel) st)) =
   fetchedHistoryRef st"
  by (simp add: history_effect_loaded_def Let_def)

lemma history_effect_loaded_rejected:
  "fst (history_effect_loaded c cancelled Rejected st) =
     st\<lparr>fetchedHistoryRef := fetchedHistoryRef st - {chat_id c},
        loadError := (if cancelled then loadError st else Some ''Could not load chat history.''),
        isLoadingHistory := False\<rparr>"
  by (simp add: history_effect_loaded_def Let_def)

lemma history_effect_loaded_cancelled:
  "fst (history_effect_loaded c True (Resolved sel) st) = st\<lparr>isLoadingHistory := False\<rparr>"
  by (simp add: history_effect_loaded_def)

lemma auto_question_trimmed: "trim (auto_question c) = auto_question c"
  by (simp add: auto_question_def trim_idem split: option.splits)

lemma history_effect_loaded_asks:
  assumes "isInsight c" "chat_id c \<notin> autoAskedByThread st" "sel = None \<or> sel = Some []"
    and "auto_question c \<noteq> []"
  shows "history_effect_loaded c False (Resolved sel) st =
     (st\<lparr>autoAskedByThread := insert (chat_id c) (autoAskedByThread st), sendError := None,
         isThinking := True,
         trace := trace st @ [SetMessage (chat_id c) (auto_question c),
                              SendMessage (chat_id c) (auto_question c) ''insight'']\<rparr>,
      Some True)"
proof -
  have c: "send_content (Some (auto_question c)) s = auto_question c" for s
    by (simp add: send_content_def auto_question_trimmed)
  show ?thesis
    using assms
    by (auto simp: history_effect_loaded_def Let_def send_begin_def c apiChatType_def)
qed

lemma history_effect_loaded_silent:
  assumes "auto_question c = [] \<or> \<not> isInsight c \<or> chat_id c \<in> autoAskedByThread st \<or>
           (sel \<noteq> None \<and> sel \<noteq> Some [])"
  shows "history_effect_loaded c False (Resolved sel) st = (st\<lparr>isLoadingHistory := False\<rparr>, None)"
  using assms
  by (auto simp: history_effect_loaded_def Let_def split: option.splits)

lemma hrun_Cons [simp]: "hrun st (e # evs) = hrun (hstep st e) evs"
  by (simp add: hrun_def)

lemma hrun_Nil [simp]: "hrun st [] = st"
  by (simp add: hrun_def)

lemma hstep_guard:
  assumes "i \<in> fetchedHistoryRef st" "\<not> load_rejected i e"
  shows "i \<in> fetchedHistoryRef (hstep st e) \<and> count_loads i (hstep st e) = count_loads i st"
proof (cases e)
  case (EffectRun c)
  show ?thesis
  proof (cases "chat_id c = i")
    case True
    then show ?thesis using assms(1) EffectRun
      by (simp add: history_effect_begin_guarded)
  next
    case False
    then show ?thesis using assms(1) EffectRun history_effect_begin_other[OF False, of st]
      by (simp add: count_loads_def)
  qed
next
  case (LoadSettled c cancelled r)
  show ?thesis
  proof (cases r)
    case (Resolved sel)
    then show ?thesis using assms(1) LoadSettled by (simp add: count_loads_def)
  next
    case Rejected
    with assms(2) LoadSettled have "chat_id c \<noteq> i" by simp
    then show ?thesis using assms(1) LoadSettled Rejected
      by (simp add: count_loads_def history_effect_loaded_rejected)
  qed
next
  case (AutoSendSettled p ok)
  then show ?thesis using assms(1) by (simp add: count_loads_def)
qed

lemma hrun_guard:
  "i \<in> fetchedHistoryRef st \<Longrightarrow> \<forall>e \<in> set evs. \<not> load_rejected i e \<Longrightarrow>
   count_loads i (hrun st evs) = count_loads i st"
proof (induction evs arbitrary: st)
  case Nil
  then show ?case by simp
next
  case (Cons e evs)
  from Cons.prems have "\<not> load_rejected i e" by simp
  from hstep_guard[OF Cons.prems(1) this]
  have 1: "i \<in> fetchedHistoryRef (hstep st e)" "count_loads i (hstep st e) = count_loads i st"
    by simp_all
  from Cons.prems have "\<forall>e \<in> set evs. \<not> load_rejected i e" by simp
  from Cons.IH[OF 1(1) this] 1(2) show ?case by simp
qed

lemma selectedFromUrl_id:
  assumes "selectedFromUrl threadId chats insights = Some c"
  shows "chat_id c \<noteq> [] \<and> threadId = Some (chat_id c)"
proof -
  from assms obtain tid where t: "threadId = Some tid" "tid \<noteq> []"
    by (auto simp: selectedFromUrl_def split: option.splits if_splits)
  show ?thesis
  proof (cases "find (\<lambda>x. sc_id x = tid) chats")
    case (Some sc)
    then have "sc_id sc = tid" by (auto simp: find_Some_iff)
    with assms t Some show ?thesis by (auto simp: selectedFromUrl_def)
  next
    case None
    with assms t obtain si where s: "find (\<lambda>x. si_id x = tid) insights = Some si"
      by (auto simp: selectedFromUrl_def split: option.splits)
    then have "si_id si = tid" by (auto simp: find_Some_iff)
    with assms t None s show ?thesis by (auto simp: selectedFromUrl_def)
  qed
qed

lemmas history_eval =
  hrun_def history_effect_begin_def history_effect_loaded_def history_effect_sent_def
  auto_question_def js_or_def truthy_str_def count_loads_def count_sends_def
  send_begin_def send_settle_def send_content_def trim_def mounted_def apiChatType_def
  isInsight_def Let_def

lemma remount_refs [simp]:
  "fetchedHistoryRef (remount starter t st) = {}"
  "autoAskedByThread (remount starter t st) = {}"
  "trace (remount starter t st) = trace st"
  by (simp_all add: remount_def mounted_def)

text \<open>
  C4, as stated, fails: the fetch guard is a ref of the component instance. A chat is
  opened and its history loads; the user goes back, which unmounts the session view, and
  opens the chat again: the new component starts with an empty guard and its first effect
  run issues a second \<open>loadMessages\<close> call for the same id. The same happens when the
  unmount comes while the first load is still in flight.
\<close>

theorem history_load_remount_counterexample:
  "count_loads (chat_id ex_chat)
     (hrun (mounted [] 0) [EffectRun ex_chat, LoadSettled ex_chat False (Resolved (Some []))]) = 1 \<and>
   trace (hstep (remount [] 0
            (hrun (mounted [] 0) [EffectRun ex_chat, LoadSettled ex_chat False (Resolved (Some []))]))
          (EffectRun ex_chat)) =
     [LoadMessages [0x63, 0x31] ''question'', LoadMessages [0x63, 0x31] ''question''] \<and>
   count_loads (chat_id ex_chat)
     (hstep (remount [] 0
        (hrun (mounted [] 0) [EffectRun ex_chat, LoadSettled ex_chat False (Resolved (Some []))]))
      (EffectRun ex_chat)) = 2 \<and>
   count_loads (chat_id ex_chat)
     (hstep (remount [] 0 (hrun (mounted [] 0) [EffectRun ex_chat])) (EffectRun ex_chat)) = 2"
  by (simp add: history_eval remount_def unmount_timers_def ex_chat_def)

text \<open>
  C4, amended. For a chat whose id is not in the fetch guard of the component (the id is a
  non-empty string, as every id that App.jsx resolves from the route is), the effect run
  issues exactly one \<open>loadMessages\<close> call for the id, and whatever follows on the same
  component instance (further effect runs for this or any chat, as on a strict-mode re-run
  or a re-entrant initialization, loads and automatic sends settling), no second call for
  the id is issued as long as no load of that id fails. The guard does not outlive the
  component: after an unmount, the first effect run of the new mount for the chat issues
  one more call for the id.
\<close>

theorem history_load_once:
  assumes "chat_id c \<noteq> []"
    and "chat_id c \<notin> fetchedHistoryRef st"
    and "\<forall>e \<in> set evs. \<not> load_rejected (chat_id c) e"
  shows "trace (hstep st (EffectRun c)) = trace st @ [LoadMessages (chat_id c) (apiChatType c)] \<and>
         count_loads (chat_id c) (hrun st (EffectRun c # evs)) = count_loads (chat_id c) st + 1 \<and>
         count_loads (chat_id c)
           (hstep (remount starter t (hrun st (EffectRun c # evs))) (EffectRun c)) =
           count_loads (chat_id c) st + 2"
proof -
  let ?st1 = "hstep st (EffectRun c)"
  let ?st2 = "hrun st (EffectRun c # evs)"
  have b: "?st1 = fst (history_effect_begin c st)" by simp
  have t: "trace ?st1 = trace st @ [LoadMessages (chat_id c) (apiChatType c)]"
    using assms(1,2) by (simp add: history_effect_begin_fresh)
  have g: "chat_id c \<in> fetchedHistoryRef ?st1"
    using assms(1,2) by (simp add: history_effect_begin_fresh)
  have "count_loads (chat_id c) (hrun ?st1 evs) = count_loads (chat_id c) ?st1"
    using hrun_guard[OF g assms(3)] .
  also have "\<dots> = count_loads (chat_id c) st + 1"
    by (simp add: count_loads_def t del: hstep.simps)
  finally have o: "count_loads (chat_id c) ?st2 = count_loads (chat_id c) st + 1"
    by simp
  have "chat_id c \<notin> fetchedHistoryRef (remount starter t ?st2)"
    by (simp del: hrun_Cons)
  from history_effect_begin_fresh[OF assms(1) this]
  have "trace (hstep (remount starter t ?st2) (EffectRun c)) =
        trace ?st2 @ [LoadMessages (chat_id c) (apiChatType c)]"
    by (simp del: hrun_Cons)
  then have "count_loads (chat_id c) (hstep (remount starter t ?st2) (EffectRun c)) =
        count_loads (chat_id c) ?st2 + 1"
    by (simp add: count_loads_def del: hstep.simps hrun_Cons)
  with o t show ?thesis by (simp del: hstep.simps hrun_Cons)
qed

text \<open>A fresh mount, the strict-mode re-run, a resolved load and one more run: one call.
  After a new mount of the same chat: a second call.\<close>

theorem history_load_once_witness:
  "chat_id ex_insight \<noteq> [] \<and> chat_id ex_insight \<notin> fetchedHistoryRef (mounted [] 0) \<and>
   count_loads (chat_id ex_insight)
     (hrun (mounted [] 0)
        [EffectRun ex_insight, EffectRun ex_insight,
         LoadSettled ex_insight True (Resolved (Some [])), EffectRun ex_insight]) = 1 \<and>
   trace (hstep (mounted [] 0) (EffectRun ex_insight)) = [LoadMessages [0x69, 0x31] ''insight''] \<and>
   count_loads (chat_id ex_insight)
     (hstep (remount [] 5
        (hrun (mounted [] 0)
           [EffectRun ex_insight, EffectRun ex_insight,
            LoadSettled ex_insight True (Resolved (Some [])), EffectRun ex_insight]))
      (EffectRun ex_insight)) = 2"
proof -
  have h: "chat_id ex_insight \<noteq> []" "chat_id ex_insight \<notin> fetchedHistoryRef (mounted [] 0)"
    "\<forall>e \<in> set [EffectRun ex_insight, LoadSettled ex_insight True (Resolved (Some [])),
                 EffectRun ex_insight]. \<not> load_rejected (chat_id ex_insight) e"
    by (simp_all add: ex_insight_def mounted_def)
  have z: "count_loads (chat_id ex_insight) (mounted [] 0) = 0"
    "trace (mounted [] 0) = []" "apiChatType ex_insight = ''insight''"
    "chat_id ex_insight = [0x69, 0x31]"
    by (simp_all add: count_loads_def mounted_def apiChatType_def isInsight_def ex_insight_def)
  show ?thesis
    using history_load_once[OF h, of "[]" 5] h(1,2) z by (simp del: hstep.simps hrun_Cons)
qed

text \<open>
  C5. When the load for a chat id fails, the \<open>catch\<close> block takes the id out of the fetch
  guard (whether or not the run was cancelled), and the next effect run for that id issues a
  new \<open>loadMessages\<close> call.
\<close>

theorem history_load_retry:
  assumes "chat_id c \<noteq> []"
  shows "chat_id c \<notin> fetchedHistoryRef (fst (history_effect_loaded c cancelled Rejected st)) \<and>
         snd (history_effect_begin c (fst (history_effect_loaded c cancelled Rejected st))) = True \<and>
         trace (fst (history_effect_begin c (fst (history_effect_loaded c cancelled Rejected st)))) =
           trace st @ [LoadMessages (chat_id c) (apiChatType c)] \<and>
         count_loads (chat_id c) (hrun st [LoadSettled c cancelled Rejected, EffectRun c]) =
           count_loads (chat_id c) st + 1"
proof -
  let ?st1 = "fst (history_effect_loaded c cancelled Rejected st)"
  have g: "chat_id c \<notin> fetchedHistoryRef ?st1"
    by (simp add: history_effect_loaded_rejected)
  have t: "trace ?st1 = trace st"
    by (simp add: history_effect_loaded_rejected)
  from history_effect_begin_fresh[OF assms g]
  have b: "snd (history_effect_begin c ?st1) = True"
    "trace (fst (history_effect_begin c ?st1)) = trace st @ [LoadMessages (chat_id c) (apiChatType c)]"
    by (simp_all add: t)
  have "count_loads (chat_id c) (hrun st [LoadSettled c cancelled Rejected, EffectRun c]) =
        count_loads (chat_id c) st + 1"
    using b(2) by (simp add: count_loads_def)
  with g b show ?thesis by simp
qed

text \<open>Mount, failed load, next run: the guard is empty in between and two calls are made.\<close>

theorem history_load_retry_witness:
  "chat_id ex_chat \<noteq> [] \<and>
   fetchedHistoryRef (hrun (mounted [] 0) [EffectRun ex_chat]) = {[0x63, 0x31]} \<and>
   fetchedHistoryRef (hrun (mounted [] 0) [EffectRun ex_chat, LoadSettled ex_chat False Rejected]) = {} \<and>
   loadError (hrun (mounted [] 0) [EffectRun ex_chat, LoadSettled ex_chat False Rejected]) =
     Some ''Could not load chat history.'' \<and>
   count_loads (chat_id ex_chat)
     (hrun (hrun (mounted [] 0) [EffectRun ex_chat]) [LoadSettled ex_chat False Rejected, EffectRun ex_chat]) = 2"
proof -
  have h: "chat_id ex_chat \<noteq> []" by (simp add: ex_chat_def)
  have z: "count_loads (chat_id ex_chat) (hrun (mounted [] 0) [EffectRun ex_chat]) = 1"
    by (simp add: history_eval ex_chat_def)
  have f: "fetchedHistoryRef (hrun (mounted [] 0) [EffectRun ex_chat]) = {[0x63, 0x31]}"
    "fetchedHistoryRef (hrun (mounted [] 0) [EffectRun ex_chat, LoadSettled ex_chat False Rejected]) = {}"
    "loadError (hrun (mounted [] 0) [EffectRun ex_chat, LoadSettled ex_chat False Rejected]) =
     Some ''Could not load chat history.''"
    by (simp_all add: history_eval ex_chat_def)
  show ?thesis
    using history_load_retry[OF h, of False "hrun (mounted [] 0) [EffectRun ex_chat]"] h z f
    by (simp del: hstep.simps hrun_Cons)
qed

section \<open>The automatic question: proofs\<close>

lemma hstep_sends:
  "(count_sends i (hstep st e) = count_sends i st \<and>
      (i \<in> autoAskedByThread st \<longrightarrow> i \<in> autoAskedByThread (hstep st e))) \<or>
   (i \<notin> autoAskedByThread st \<and> i \<in> autoAskedByThread (hstep st e) \<and>
      count_sends i (hstep st e) = count_sends i st + 1)"
proof (cases e)
  case (EffectRun c)
  then show ?thesis by (simp add: count_sends_def)
next
  case (AutoSendSettled p ok)
  then show ?thesis by (simp add: count_sends_def)
next
  case (LoadSettled c cancelled r)
  show ?thesis
  proof (cases "\<not> cancelled \<and> isInsight c \<and> chat_id c \<notin> autoAskedByThread st \<and>
                (\<exists>sel. r = Resolved sel \<and> (sel = None \<or> sel = Some [])) \<and> auto_question c \<noteq> []")
    case True
    then obtain sel where r: "r = Resolved sel" "sel = None \<or> sel = Some []"
      and a: "isInsight c" "chat_id c \<notin> autoAskedByThread st" "auto_question c \<noteq> []"
      and n: "\<not> cancelled"
      by blast
    from history_effect_loaded_asks[OF a(1,2) r(2) a(3)]
    have s: "hstep st e =
       st\<lparr>autoAskedByThread := insert (chat_id c) (autoAskedByThread st), sendError := None,
          isThinking := True,
          trace := trace st @ [SetMessage (chat_id c) (auto_question c),
                               SendMessage (chat_id c) (auto_question c) ''insight'']\<rparr>"
      using LoadSettled r(1) n by simp
    show ?thesis
    proof (cases "chat_id c = i")
      case True
      then show ?thesis using a(2) by (simp add: s count_sends_def)
    next
      case False
      then show ?thesis by (simp add: s count_sends_def)
    qed
  next
    case False
    have "trace (hstep st e) = trace st \<and> autoAskedByThread (hstep st e) = autoAskedByThread st"
    proof (cases r)
      case Rejected
      then show ?thesis using LoadSettled by (simp add: history_effect_loaded_rejected)
    next
      case (Resolved sel)
      show ?thesis
      proof (cases cancelled)
        case True
        then show ?thesis using LoadSettled Resolved by (simp add: history_effect_loaded_cancelled)
      next
        case nc: False
        with False Resolved have "auto_question c = [] \<or> \<not> isInsight c \<or>
            chat_id c \<in> autoAskedByThread st \<or> (sel \<noteq> None \<and> sel \<noteq> Some [])"
          by auto
        from history_effect_loaded_silent[OF this] show ?thesis
          using LoadSettled Resolved nc by simp
      qed
    qed
    then show ?thesis by (simp add: count_sends_def)
  qed
qed

lemma hrun_sends_asked:
  "i \<in> autoAskedByThread st \<Longrightarrow>
   count_sends i (hrun st evs) = count_sends i st \<and> i \<in> autoAskedByThread (hrun st evs)"
proof (induction evs arbitrary: st)
  case Nil
  then show ?case by simp
next
  case (Cons e evs)
  from hstep_sends[of i st e] Cons.prems
  have 1: "count_sends i (hstep st e) = count_sends i st" "i \<in> autoAskedByThread (hstep st e)"
    by auto
  from Cons.IH[OF 1(2)] 1(1) show ?case by simp
qed

lemma hrun_sends_le: "count_sends i (hrun st evs) \<le> count_sends i st + 1"
proof (induction evs arbitrary: st)
  case Nil
  then show ?case by simp
next
  case (Cons e evs)
  from hstep_sends[of i st e] show ?case
  proof
    assume a: "count_sends i (hstep st e) = count_sends i st \<and>
      (i \<in> autoAskedByThread st \<longrightarrow> i \<in> autoAskedByThread (hstep st e))"
    from Cons.IH[of "hstep st e"] a show ?thesis by simp
  next
    assume a: "i \<notin> autoAskedByThread st \<and> i \<in> autoAskedByThread (hstep st e) \<and>
      count_sends i (hstep st e) = count_sends i st + 1"
    then have "count_sends i (hrun (hstep st e) evs) = count_sends i (hstep st e)"
      using hrun_sends_asked by blast
    with a show ?thesis by simp
  qed
qed

lemma auto_send_fires:
  assumes "isInsight c" "chat_id c \<notin> autoAskedByThread st" "sel = None \<or> sel = Some []"
    and "auto_question c \<noteq> []"
  shows "trace (hstep st (LoadSettled c False (Resolved sel))) =
           trace st @ [SetMessage (chat_id c) (auto_question c),
                       SendMessage (chat_id c) (auto_question c) ''insight'']"
    and "count_sends (chat_id c) (hrun st (LoadSettled c False (Resolved sel) # evs)) =
           count_sends (chat_id c) st + 1"
proof -
  have s: "history_effect_loaded c False (Resolved sel) st =
     (st\<lparr>autoAskedByThread := insert (chat_id c) (autoAskedByThread st), sendError := None,
         isThinking := True,
         trace := trace st @ [SetMessage (chat_id c) (auto_question c),
                              SendMessage (chat_id c) (auto_question c) ''insight'']\<rparr>,
      Some True)"
    using assms by (rule history_effect_loaded_asks)
  show t: "trace (hstep st (LoadSettled c False (Resolved sel))) =
        trace st @ [SetMessage (chat_id c) (auto_question c),
                    SendMessage (chat_id c) (auto_question c) ''insight'']"
    by (simp add: s)
  have m: "chat_id c \<in> autoAskedByThread (hstep st (LoadSettled c False (Resolved sel)))"
    by (simp add: s)
  have "count_sends (chat_id c) (hrun (hstep st (LoadSettled c False (Resolved sel))) evs) =
        count_sends (chat_id c) (hstep st (LoadSettled c False (Resolved sel)))"
    using hrun_sends_asked[OF m] by blast
  also have "\<dots> = count_sends (chat_id c) st + 1"
    by (simp add: count_sends_def t del: hstep.simps)
  finally show "count_sends (chat_id c) (hrun st (LoadSettled c False (Resolved sel) # evs)) =
        count_sends (chat_id c) st + 1"
    by simp
qed

text \<open>
  C6, as stated, fails, in both of its parts. Not exactly one send: an insight with a
  non-empty question and an empty history is opened and, before its load resolves, the user
  opens another chat in the same session view; the load then settles for a run whose
  \<open>cancelled\<close> variable is set, and coming back to the insight finds its id in the fetch
  guard: no automatic send is made. A second mount does send again: the mark is a ref of
  the component instance, so after the question was sent once (and the request failed),
  going back unmounts the session view, and opening the insight again while its history is
  still empty sends the question a second time.
\<close>

theorem auto_send_exactly_once_counterexample:
  "isInsight ex_insight \<and> auto_question ex_insight = [0x68, 0x69] \<and>
   trace (hrun (mounted [] 0)
        [EffectRun ex_insight, EffectRun ex_chat,
         LoadSettled ex_insight True (Resolved (Some [])), EffectRun ex_insight]) =
     [LoadMessages [0x69, 0x31] ''insight'', LoadMessages [0x63, 0x31] ''question''] \<and>
   count_sends (chat_id ex_insight)
     (hrun (mounted [] 0)
        [EffectRun ex_insight, EffectRun ex_chat,
         LoadSettled ex_insight True (Resolved (Some [])), EffectRun ex_insight]) = 0 \<and>
   count_sends (chat_id ex_insight)
     (hrun (mounted [] 0)
        [EffectRun ex_insight, LoadSettled ex_insight False (Resolved (Some [])),
         AutoSendSettled True False]) = 1 \<and>
   trace (hrun (remount [] 0
            (hrun (mounted [] 0)
               [EffectRun ex_insight, LoadSettled ex_insight False (Resolved (Some [])),
                AutoSendSettled True False]))
          [EffectRun ex_insight, LoadSettled ex_insight False (Resolved (Some []))]) =
     [LoadMessages [0x69, 0x31] ''insight'', SetMessage [0x69, 0x31] [0x68, 0x69],
      SendMessage [0x69, 0x31] [0x68, 0x69] ''insight'',
      LoadMessages [0x69, 0x31] ''insight'', SetMessage [0x69, 0x31] [0x68, 0x69],
      SendMessage [0x69, 0x31] [0x68, 0x69] ''insight''] \<and>
   count_sends (chat_id ex_insight)
     (hrun (remount [] 0
        (hrun (mounted [] 0)
           [EffectRun ex_insight, LoadSettled ex_insight False (Resolved (Some [])),
            AutoSendSettled True False]))
      [EffectRun ex_insight, LoadSettled ex_insight False (Resolved (Some []))]) = 2"
  by (simp add: history_eval remount_def unmount_timers_def ex_insight_def ex_chat_def)

text \<open>
  C6, amended. On one component instance and for every chat id, at most one automatic send
  is made, whatever effect runs and settlements happen, and none once the id is marked as
  asked on that instance. For an insight whose question is not empty and whose id is not
  marked, a load that resolves with an empty history while its run is not cancelled makes
  exactly one automatic send, of that question. The mark does not outlive the component:
  after an unmount, a new mount of the insight whose load resolves with a history that is
  still empty (the run not cancelled) sends the question once more.
\<close>

theorem auto_send_at_most_once:
  "count_sends i (hrun st evs) \<le> count_sends i st + 1 \<and>
   (i \<in> autoAskedByThread st \<longrightarrow> count_sends i (hrun st evs) = count_sends i st) \<and>
   (isInsight c \<and> chat_id c \<notin> autoAskedByThread st \<and> (sel = None \<or> sel = Some []) \<and>
    auto_question c \<noteq> [] \<longrightarrow>
      trace (hstep st (LoadSettled c False (Resolved sel))) =
        trace st @ [SetMessage (chat_id c) (auto_question c),
                    SendMessage (chat_id c) (auto_question c) ''insight''] \<and>
      count_sends (chat_id c) (hrun st (LoadSettled c False (Resolved sel) # evs)) =
        count_sends (chat_id c) st + 1) \<and>
   (isInsight c \<and> (sel = None \<or> sel = Some []) \<and> auto_question c \<noteq> [] \<longrightarrow>
      count_sends (chat_id c)
        (hrun (remount starter t st)
           (EffectRun c # LoadSettled c False (Resolved sel) # evs)) =
        count_sends (chat_id c) st + 1)"
proof (intro conjI impI)
  show "count_sends i (hrun st evs) \<le> count_sends i st + 1"
    by (rule hrun_sends_le)
next
  assume "i \<in> autoAskedByThread st"
  then show "count_sends i (hrun st evs) = count_sends i st"
    using hrun_sends_asked by blast
next
  assume a: "isInsight c \<and> chat_id c \<notin> autoAskedByThread st \<and> (sel = None \<or> sel = Some []) \<and>
    auto_question c \<noteq> []"
  then show "trace (hstep st (LoadSettled c False (Resolved sel))) =
        trace st @ [SetMessage (chat_id c) (auto_question c),
                    SendMessage (chat_id c) (auto_question c) ''insight'']"
    using auto_send_fires(1) by blast
  from a show "count_sends (chat_id c) (hrun st (LoadSettled c False (Resolved sel) # evs)) =
        count_sends (chat_id c) st + 1"
    using auto_send_fires(2) by blast
next
  assume a: "isInsight c \<and> (sel = None \<or> sel = Some []) \<and> auto_question c \<noteq> []"
  let ?st1 = "hstep (remount starter t st) (EffectRun c)"
  have m: "chat_id c \<notin> autoAskedByThread ?st1"
    by simp
  have "count_sends (chat_id c) ?st1 = count_sends (chat_id c) st"
    by (simp add: count_sends_def)
  moreover have "count_sends (chat_id c) (hrun ?st1 (LoadSettled c False (Resolved sel) # evs)) =
      count_sends (chat_id c) ?st1 + 1"
    using a m by (intro auto_send_fires(2)) simp_all
  ultimately show "count_sends (chat_id c)
        (hrun (remount starter t st)
           (EffectRun c # LoadSettled c False (Resolved sel) # evs)) =
        count_sends (chat_id c) st + 1"
    by (simp del: hstep.simps)
qed

text \<open>Mount, resolved load of an empty history, the send failing, a second run on the same
  component: one send. After a new mount with the history still empty: a second send.\<close>

theorem auto_send_at_most_once_witness:
  "isInsight ex_insight \<and> chat_id ex_insight \<notin> autoAskedByThread (hrun (mounted [] 0) [EffectRun ex_insight]) \<and>
   auto_question ex_insight \<noteq> [] \<and>
   count_sends (chat_id ex_insight)
     (hrun (hrun (mounted [] 0) [EffectRun ex_insight])
        [LoadSettled ex_insight False (Resolved (Some [])), AutoSendSettled True False,
         EffectRun ex_insight, LoadSettled ex_insight False (Resolved (Some []))]) = 1 \<and>
   trace (hrun (mounted [] 0) [EffectRun ex_insight, LoadSettled ex_insight False (Resolved (Some []))]) =
     [LoadMessages [0x69, 0x31] ''insight'', SetMessage [0x69, 0x31] [0x68, 0x69],
      SendMessage [0x69, 0x31] [0x68, 0x69] ''insight''] \<and>
   count_sends (chat_id ex_insight)
     (hrun (remount [] 5
        (hrun (mounted [] 0)
           [EffectRun ex_insight, LoadSettled ex_insight False (Resolved (Some [])),
            AutoSendSettled True False]))
      [EffectRun ex_insight, LoadSettled ex_insight False (Resolved None),
       AutoSendSettled True True, EffectRun ex_insight]) = 2 \<and>
   chat_id ex_insight \<in> autoAskedByThread
     (hrun (mounted [] 0)
        [EffectRun ex_insight, LoadSettled ex_insight False (Resolved (Some [])),
         AutoSendSettled True False]) \<and>
   count_sends (chat_id ex_insight)
     (hrun (hrun (mounted [] 0)
              [EffectRun ex_insight, LoadSettled ex_insight False (Resolved (Some [])),
               AutoSendSettled True False])
        [AutoSendSettled True True, EffectRun ex_insight]) = 1"
proof -
  have h: "isInsight ex_insight \<and>
      chat_id ex_insight \<notin> autoAskedByThread (hrun (mounted [] 0) [EffectRun ex_insight]) \<and>
      (Some [] = None \<or> Some [] = Some ([] :: message list)) \<and> auto_question ex_insight \<noteq> []"
    by (simp add: history_eval ex_insight_def)
  have h': "isInsight ex_insight \<and> (None = None \<or> None = Some ([] :: message list)) \<and>
      auto_question ex_insight \<noteq> []"
    by (simp add: history_eval ex_insight_def)
  have z: "count_sends (chat_id ex_insight) (hrun (mounted [] 0) [EffectRun ex_insight]) = 0"
    "count_sends (chat_id ex_insight)
       (hrun (mounted [] 0)
          [EffectRun ex_insight, LoadSettled ex_insight False (Resolved (Some [])),
           AutoSendSettled True False]) = 1"
    by (simp_all add: history_eval ex_insight_def)
  have t: "trace (hrun (mounted [] 0) [EffectRun ex_insight, LoadSettled ex_insight False (Resolved (Some []))]) =
     [LoadMessages [0x69, 0x31] ''insight'', SetMessage [0x69, 0x31] [0x68, 0x69],
      SendMessage [0x69, 0x31] [0x68, 0x69] ''insight'']"
    by (simp add: history_eval ex_insight_def)
  note w1 = auto_send_at_most_once[of "chat_id ex_insight"
      "hrun (mounted [] 0) [EffectRun ex_insight]"
      "[AutoSendSettled True False, EffectRun ex_insight,
        LoadSettled ex_insight False (Resolved (Some []))]"
      ex_insight "Some []" "[]" 5]
  note w2 = auto_send_at_most_once[of "chat_id ex_insight"
      "hrun (mounted [] 0)
         [EffectRun ex_insight, LoadSettled ex_insight False (Resolved (Some [])),
          AutoSendSettled True False]"
      "[AutoSendSettled True True, EffectRun ex_insight]"
      ex_insight None "[]" 5]
  have r1: "count_sends (chat_id ex_insight)
     (hrun (hrun (mounted [] 0) [EffectRun ex_insight])
        [LoadSettled ex_insight False (Resolved (Some [])), AutoSendSettled True False,
         EffectRun ex_insight, LoadSettled ex_insight False (Resolved (Some []))]) = 1"
    using w1 h z(1) by (simp del: hstep.simps hrun_Cons)
  have r2: "count_sends (chat_id ex_insight)
     (hrun (remount [] 5
        (hrun (mounted [] 0)
           [EffectRun ex_insight, LoadSettled ex_insight False (Resolved (Some [])),
            AutoSendSettled True False]))
      [EffectRun ex_insight, LoadSettled ex_insight False (Resolved None),
       AutoSendSettled True True, EffectRun ex_insight]) = 2"
    using w2 h' z(2) by (simp del: hstep.simps hrun_Cons)
  have a: "chat_id ex_insight \<in> autoAskedByThread
     (hrun (mounted [] 0)
        [EffectRun ex_insight, LoadSettled ex_insight False (Resolved (Some [])),
         AutoSendSettled True False])"
    by (simp add: history_eval ex_insight_def)
  have r3: "count_sends (chat_id ex_insight)
     (hrun (hrun (mounted [] 0)
              [EffectRun ex_insight, LoadSettled ex_insight False (Resolved (Some [])),
               AutoSendSettled True False])
        [AutoSendSettled True True, EffectRun ex_insight]) = 1"
    using w2 a z(2) by (simp del: hstep.simps hrun_Cons)
  from h t r1 r2 a r3 show ?thesis by (intro conjI) simp_all
qed

text \<open>
  C10, as stated, fails: an insight with an empty history whose question (its title, as
  \<open>userQuestion\<close> is empty) is not empty after trimming, but whose effect run was
  cancelled before the load resolved; nothing is sent.
\<close>

theorem auto_question_sent_iff_counterexample:
  "isInsight ex_titled \<and> auto_question ex_titled = [0x54] \<and>
   trace (fst (history_effect_loaded ex_titled True (Resolved (Some [])) (mounted [] 0))) = [] \<and>
   snd (history_effect_loaded ex_titled True (Resolved (Some [])) (mounted [] 0)) = None"
  by (simp add: history_eval ex_titled_def)

text \<open>
  C10, amended. The question is \<open>insightData.userQuestion\<close> when that is a non-empty
  string, otherwise the chat's title (the empty string when there is none), trimmed. For
  an insight whose load resolved with an empty history, in a run that is not cancelled and
  for an id not yet marked as asked, the automatic send (optimistic append and send
  operation, with that question) is made if and only if the trimmed string is not empty.
  A run that is cancelled when its load settles sends nothing.
\<close>

theorem auto_question_sent_iff:
  assumes "isInsight c"
    and "sel = None \<or> sel = Some []"
    and "chat_id c \<notin> autoAskedByThread st"
  shows "auto_question c =
           trim (case (case insightData c of None \<Rightarrow> None | Some d \<Rightarrow> userQuestion d) of
                   None \<Rightarrow> (case title c of None \<Rightarrow> [] | Some t \<Rightarrow> t)
                 | Some u \<Rightarrow> if u \<noteq> [] then u else (case title c of None \<Rightarrow> [] | Some t \<Rightarrow> t)) \<and>
         trace (fst (history_effect_loaded c False (Resolved sel) st)) =
           (if auto_question c \<noteq> []
            then trace st @ [SetMessage (chat_id c) (auto_question c),
                             SendMessage (chat_id c) (auto_question c) ''insight'']
            else trace st) \<and>
         (snd (history_effect_loaded c False (Resolved sel) st) \<noteq> None \<longleftrightarrow> auto_question c \<noteq> []) \<and>
         trace (fst (history_effect_loaded c True r st)) = trace st"
proof (intro conjI)
  show "auto_question c =
           trim (case (case insightData c of None \<Rightarrow> None | Some d \<Rightarrow> userQuestion d) of
                   None \<Rightarrow> (case title c of None \<Rightarrow> [] | Some t \<Rightarrow> t)
                 | Some u \<Rightarrow> if u \<noteq> [] then u else (case title c of None \<Rightarrow> [] | Some t \<Rightarrow> t))"
    by (simp add: auto_question_def js_or_def truthy_str_def split: option.splits)
next
  show "trace (fst (history_effect_loaded c False (Resolved sel) st)) =
           (if auto_question c \<noteq> []
            then trace st @ [SetMessage (chat_id c) (auto_question c),
                             SendMessage (chat_id c) (auto_question c) ''insight'']
            else trace st)"
  proof (cases "auto_question c = []")
    case True
    then show ?thesis by (simp add: history_effect_loaded_silent)
  next
    case False
    from history_effect_loaded_asks[OF assms(1,3,2) False] False show ?thesis by simp
  qed
next
  show "snd (history_effect_loaded c False (Resolved sel) st) \<noteq> None \<longleftrightarrow> auto_question c \<noteq> []"
  proof (cases "auto_question c = []")
    case True
    then show ?thesis by (simp add: history_effect_loaded_silent)
  next
    case False
    from history_effect_loaded_asks[OF assms(1,3,2) False] False show ?thesis by simp
  qed
next
  show "trace (fst (history_effect_loaded c True r st)) = trace st"
    by (cases r) (simp_all add: history_effect_loaded_rejected history_effect_loaded_cancelled)
qed

text \<open>The title is used (the question is empty) and trimmed; a blank question blocks the
  send although the title is not blank.\<close>

theorem auto_question_sent_iff_witness:
  "isInsight ex_titled \<and> chat_id ex_titled \<notin> autoAskedByThread (mounted [] 0) \<and>
   auto_question ex_titled = [0x54] \<and>
   trace (fst (history_effect_loaded ex_titled False (Resolved (Some [])) (mounted [] 0))) =
     [SetMessage [0x69, 0x32] [0x54], SendMessage [0x69, 0x32] [0x54] ''insight''] \<and>
   auto_question (ex_titled\<lparr>insightData := Some \<lparr>userQuestion = Some [0x20]\<rparr>\<rparr>) = [] \<and>
   trace (fst (history_effect_loaded (ex_titled\<lparr>insightData := Some \<lparr>userQuestion = Some [0x20]\<rparr>\<rparr>)
                 False (Resolved None) (mounted [] 0))) = []"
proof -
  have h: "isInsight ex_titled" "Some [] = None \<or> Some [] = Some ([] :: message list)"
    "chat_id ex_titled \<notin> autoAskedByThread (mounted [] 0)"
    by (simp_all add: isInsight_def ex_titled_def mounted_def)
  have h': "isInsight (ex_titled\<lparr>insightData := Some \<lparr>userQuestion = Some [0x20]\<rparr>\<rparr>)"
    "None = None \<or> None = Some ([] :: message list)"
    "chat_id (ex_titled\<lparr>insightData := Some \<lparr>userQuestion = Some [0x20]\<rparr>\<rparr>) \<notin> autoAskedByThread (mounted [] 0)"
    by (simp_all add: isInsight_def ex_titled_def mounted_def)
  have q: "auto_question ex_titled = [0x54]"
    "auto_question (ex_titled\<lparr>insightData := Some \<lparr>userQuestion = Some [0x20]\<rparr>\<rparr>) = []"
    "chat_id ex_titled = [0x69, 0x32]" "trace (mounted [] 0) = []"
    by (simp_all add: auto_question_def js_or_def truthy_str_def trim_def ex_titled_def mounted_def)
  show ?thesis
    using auto_question_sent_iff[OF h, of Rejected] auto_question_sent_iff[OF h', of Rejected] h q
    by simp
qed

section \<open>Removal timers: proofs\<close>

lemma update_fresh: "k \<notin> fst ` set al \<Longrightarrow> AList.update k v al = al @ [(k, v)]"
  by (induction al) auto

lemma map_of_registered: "map_of al k \<noteq> None \<longleftrightarrow> k \<in> fst ` set al"
  by (simp add: map_of_eq_None_iff)

lemma count_distinct:
  "distinct xs \<Longrightarrow> length (filter (\<lambda>k. k = i) xs) = (if i \<in> set xs then 1 else 0)"
  by (induction xs) auto

lemma pending_removals_keys:
  "pending_removals i st = length (filter (\<lambda>k. k = i) (map (\<lambda>p. fst (snd p)) (timeouts st)))"
  by (simp add: pending_removals_def filter_map comp_def)

lemma timers_inv_keys:
  "timers_inv st \<Longrightarrow> map (\<lambda>p. fst (snd p)) (timeouts st) = map fst (removalTimersRef st)"
proof -
  assume "timers_inv st"
  then have "map fst (map (\<lambda>p. (fst (snd p), fst p)) (timeouts st)) = map fst (removalTimersRef st)"
    by (simp only: timers_inv_def)
  then show ?thesis by (simp add: comp_def)
qed

lemma pending_removals_inv:
  assumes "timers_inv st"
  shows "pending_removals i st = (if map_of (removalTimersRef st) i \<noteq> None then 1 else 0)"
proof -
  have d: "distinct (map fst (removalTimersRef st))"
    using assms by (simp add: timers_inv_def)
  have "pending_removals i st = length (filter (\<lambda>k. k = i) (map fst (removalTimersRef st)))"
    by (simp only: pending_removals_keys timers_inv_keys[OF assms])
  also have "\<dots> = (if i \<in> set (map fst (removalTimersRef st)) then 1 else 0)"
    using d by (rule count_distinct)
  finally show ?thesis by (simp only: map_of_registered set_map)
qed

lemma scheduleRemoval_registered:
  "map_of (removalTimersRef st) i \<noteq> None \<Longrightarrow> scheduleRemoval i d st = st"
  by (simp add: scheduleRemoval_def)

lemma scheduleRemoval_fresh:
  assumes "map_of (removalTimersRef st) i = None"
  shows "scheduleRemoval i d st =
     st\<lparr>timeouts := timeouts st @ [(nextTimer st, i, d)], nextTimer := Suc (nextTimer st),
        removalTimersRef := removalTimersRef st @ [(i, nextTimer st)]\<rparr>"
proof -
  from assms have "i \<notin> fst ` set (removalTimersRef st)"
    by (simp add: map_of_eq_None_iff)
  then show ?thesis
    using assms by (simp add: scheduleRemoval_def Let_def update_fresh)
qed

lemma scheduleRemoval_inv:
  assumes "timers_inv st"
  shows "timers_inv (scheduleRemoval i d st)"
proof (cases "map_of (removalTimersRef st) i = None")
  case False
  then show ?thesis using assms by (simp add: scheduleRemoval_registered)
next
  case True
  then have f: "i \<notin> fst ` set (removalTimersRef st)"
    by (simp add: map_of_eq_None_iff)
  have l: "list_all (\<lambda>p. fst p < Suc (nextTimer st)) (timeouts st)"
    using assms by (auto simp: timers_inv_def list_all_iff)
  have n: "nextTimer st \<notin> fst ` set (timeouts st)"
    using assms by (auto simp: timers_inv_def list_all_iff)
  show ?thesis
    using assms f l n by (simp add: scheduleRemoval_fresh[OF True] timers_inv_def)
qed

lemma scheduleRemoval_keeps:
  "map_of (removalTimersRef st) i \<noteq> None \<Longrightarrow>
   map_of (removalTimersRef (scheduleRemoval j d st)) i \<noteq> None"
  by (cases "map_of (removalTimersRef st) j = None")
     (simp_all add: scheduleRemoval_fresh scheduleRemoval_registered)

lemma scheduleRemoval_registers:
  "map_of (removalTimersRef (scheduleRemoval i d st)) i \<noteq> None"
  by (cases "map_of (removalTimersRef st) i = None")
     (simp_all add: scheduleRemoval_fresh scheduleRemoval_registered)

lemma scheduleRemoval_uploads [simp]:
  "uploads (scheduleRemoval i d st) = uploads st" "trace (scheduleRemoval i d st) = trace st"
  by (simp_all add: scheduleRemoval_def Let_def)

lemma schedule_many:
  "timers_inv st \<Longrightarrow> map_of (removalTimersRef st) i \<noteq> None \<Longrightarrow>
   timers_inv (fold (\<lambda>p. scheduleRemoval (fst p) (snd p)) calls st) \<and>
   map_of (removalTimersRef (fold (\<lambda>p. scheduleRemoval (fst p) (snd p)) calls st)) i \<noteq> None"
proof (induction calls arbitrary: st)
  case Nil
  then show ?case by simp
next
  case (Cons p calls)
  have 1: "timers_inv (scheduleRemoval (fst p) (snd p) st)"
    using Cons.prems(1) by (rule scheduleRemoval_inv)
  have 2: "map_of (removalTimersRef (scheduleRemoval (fst p) (snd p) st)) i \<noteq> None"
    using Cons.prems(2) by (rule scheduleRemoval_keeps)
  from Cons.IH[OF 1 2] show ?case by simp
qed

lemma find_handle:
  assumes "distinct (map fst ts)" "(t, i, d) \<in> set ts"
  shows "find (\<lambda>p. fst p = t) ts = Some (t, i, d)"
  using assms
proof (induction ts)
  case Nil
  then show ?case by simp
next
  case (Cons p ts)
  show ?case
  proof (cases "fst p = t")
    case True
    with Cons.prems have "p = (t, i, d)" by (cases p) force
    then show ?thesis by simp
  next
    case False
    with Cons show ?thesis by auto
  qed
qed

lemma timer_fires_found:
  assumes "timers_inv st" "(t, i, d) \<in> set (timeouts st)"
  shows "timer_fires t st =
     st\<lparr>timeouts := filter (\<lambda>p. fst p \<noteq> t) (timeouts st),
        uploads := filter (\<lambda>x. task_id x \<noteq> i) (uploads st),
        removalTimersRef := AList.delete i (removalTimersRef st)\<rparr>"
proof -
  have "distinct (map fst (timeouts st))"
    using assms(1) by (simp add: timers_inv_def)
  from find_handle[OF this assms(2)] show ?thesis
    by (simp add: timer_fires_def Let_def)
qed

lemma only_timeout:
  assumes "timers_inv st" "(t, i, d) \<in> set (timeouts st)" "p \<in> set (timeouts st)"
    "fst (snd p) = i"
  shows "fst p = t"
proof -
  have "distinct (map (\<lambda>p. fst (snd p)) (timeouts st))"
    using assms(1) timers_inv_keys[OF assms(1)] by (simp add: timers_inv_def)
  then have "inj_on (\<lambda>p. fst (snd p)) (set (timeouts st))"
    by (simp add: distinct_map)
  from inj_onD[OF this _ assms(3,2)] assms(4) show ?thesis by simp
qed

lemma timer_fires_clears:
  assumes "timers_inv st" "(t, i, d) \<in> set (timeouts st)"
  shows "pending_removals i (timer_fires t st) = 0"
    and "list_all (\<lambda>x. task_id x \<noteq> i) (uploads (timer_fires t st))"
    and "map_of (removalTimersRef (timer_fires t st)) i = None"
proof -
  have "filter (\<lambda>p. fst (snd p) = i) (filter (\<lambda>p. fst p \<noteq> t) (timeouts st)) = []"
    using only_timeout[OF assms] by (auto simp: filter_empty_conv)
  then show "pending_removals i (timer_fires t st) = 0"
    by (simp add: pending_removals_def timer_fires_found[OF assms])
  show "list_all (\<lambda>x. task_id x \<noteq> i) (uploads (timer_fires t st))"
    by (simp add: timer_fires_found[OF assms] list_all_iff)
  show "map_of (removalTimersRef (timer_fires t st)) i = None"
    by (simp add: timer_fires_found[OF assms] delete_conv')
qed

text \<open>The invariant \<open>timers_inv\<close> holds on a fresh mount and is kept by everything that
  touches the timers: scheduling (above), a timer firing, the unmount cleanup, and the upload
  loop (below).\<close>

lemma timers_inv_mounted: "timers_inv (mounted s t)"
  by (simp add: timers_inv_def mounted_def)

lemma find_SomeD: "find P xs = Some x \<Longrightarrow> P x \<and> x \<in> set xs"
  by (induction xs) (auto split: if_splits)

lemma timer_fires_inv:
  assumes "timers_inv st"
  shows "timers_inv (timer_fires t st)"
proof (cases "find (\<lambda>p. fst p = t) (timeouts st)")
  case None
  then show ?thesis using assms by (simp add: timer_fires_def)
next
  case (Some q)
  obtain h i d where q: "q = (h, i, d)" by (cases q) auto
  from find_SomeD[OF Some] q have m: "(t, i, d) \<in> set (timeouts st)"
    by auto
  have dh: "distinct (map fst (timeouts st))"
    using assms by (simp add: timers_inv_def)
  have same: "fst p \<noteq> t \<longleftrightarrow> fst (snd p) \<noteq> i" if "p \<in> set (timeouts st)" for p
  proof
    assume "fst p \<noteq> t"
    then show "fst (snd p) \<noteq> i"
      using only_timeout[OF assms m that] by blast
  next
    assume n: "fst (snd p) \<noteq> i"
    show "fst p \<noteq> t"
    proof
      assume "fst p = t"
      with dh that m have "p = (t, i, d)"
        by (metis (no_types, lifting) distinct_map fst_conv inj_onD)
      with n show False by simp
    qed
  qed
  have f: "filter (\<lambda>p. fst p \<noteq> t) (timeouts st) = filter (\<lambda>p. fst (snd p) \<noteq> i) (timeouts st)"
    by (rule filter_cong) (simp_all add: same)
  have r: "map (\<lambda>p. (fst (snd p), fst p)) (filter (\<lambda>p. fst (snd p) \<noteq> i) (timeouts st)) =
           AList.delete i (removalTimersRef st)"
  proof -
    have "AList.delete i (map (\<lambda>p. (fst (snd p), fst p)) (timeouts st)) =
          map (\<lambda>p. (fst (snd p), fst p)) (filter (\<lambda>p. fst (snd p) \<noteq> i) (timeouts st))"
      by (simp add: AList.delete_eq filter_map comp_def eq_commute[of i])
    then show ?thesis using assms by (simp add: timers_inv_def)
  qed
  have "timers_inv
      (st\<lparr>timeouts := filter (\<lambda>p. fst p \<noteq> t) (timeouts st),
          uploads := filter (\<lambda>x. task_id x \<noteq> i) (uploads st),
          removalTimersRef := AList.delete i (removalTimersRef st)\<rparr>)"
    using assms r
    by (simp add: timers_inv_def f distinct_map_filter distinct_delete list_all_iff)
  then show ?thesis by (simp only: timer_fires_found[OF assms m])
qed

lemma unmount_timers_inv:
  assumes "timers_inv st"
  shows "timers_inv (unmount_timers st)" and "timeouts (unmount_timers st) = []"
proof -
  have "map fst (timeouts st) = map snd (removalTimersRef st)"
  proof -
    have "map snd (map (\<lambda>p. (fst (snd p), fst p)) (timeouts st)) = map snd (removalTimersRef st)"
      using assms by (simp only: timers_inv_def)
    then show ?thesis by (simp add: comp_def)
  qed
  then have "fst ` set (timeouts st) = snd ` set (removalTimersRef st)"
    by (metis list.set_map)
  then have e: "filter (\<lambda>p. fst p \<notin> snd ` set (removalTimersRef st)) (timeouts st) = []"
    by (auto simp: filter_empty_conv)
  show "timeouts (unmount_timers st) = []"
    by (simp add: unmount_timers_def e)
  show "timers_inv (unmount_timers st)"
    by (simp add: unmount_timers_def e timers_inv_def)
qed


lemmas timers_eval =
  scheduleRemoval_def timer_fires_def pending_removals_def timers_inv_def mounted_def Let_def

text \<open>
  C8. On a component whose pending timeouts are the registered ones: a call of
  \<open>scheduleRemoval\<close> for an id that has a pending removal timer changes nothing; after a
  call for an id, whatever further calls follow (for this or other ids), exactly one
  timeout is pending for the id; and when that timeout fires, every task with the id leaves
  the upload list, the registration is dropped and no timeout for the id remains, so no
  second removal follows.
\<close>

theorem removal_scheduled_once:
  assumes "timers_inv st"
  shows "(map_of (removalTimersRef st) i \<noteq> None \<longrightarrow> scheduleRemoval i d st = st) \<and>
         pending_removals i
           (fold (\<lambda>p. scheduleRemoval (fst p) (snd p)) calls (scheduleRemoval i d st)) = 1 \<and>
         ((t, i, d') \<in> set (timeouts st) \<longrightarrow>
            pending_removals i (timer_fires t st) = 0 \<and>
            list_all (\<lambda>x. task_id x \<noteq> i) (uploads (timer_fires t st)) \<and>
            map_of (removalTimersRef (timer_fires t st)) i = None)"
proof (intro conjI impI)
  assume "map_of (removalTimersRef st) i \<noteq> None"
  then show "scheduleRemoval i d st = st" by (rule scheduleRemoval_registered)
next
  have 1: "timers_inv (scheduleRemoval i d st)"
    using assms by (rule scheduleRemoval_inv)
  have 2: "map_of (removalTimersRef (scheduleRemoval i d st)) i \<noteq> None"
    by (rule scheduleRemoval_registers)
  from schedule_many[OF 1 2, of calls] pending_removals_inv
  show "pending_removals i
      (fold (\<lambda>p. scheduleRemoval (fst p) (snd p)) calls (scheduleRemoval i d st)) = 1"
    by simp
next
  assume a: "(t, i, d') \<in> set (timeouts st)"
  show "pending_removals i (timer_fires t st) = 0"
    using timer_fires_clears(1)[OF assms a] .
  show "list_all (\<lambda>x. task_id x \<noteq> i) (uploads (timer_fires t st))"
    using timer_fires_clears(2)[OF assms a] .
  show "map_of (removalTimersRef (timer_fires t st)) i = None"
    using timer_fires_clears(3)[OF assms a] .
qed

text \<open>A task is scheduled twice, another once; the first timer fires and removes the task.\<close>

theorem removal_scheduled_once_witness:
  "timers_inv (mounted [] 0) \<and>
   timers_inv (scheduleRemoval [0x61] 3000 (mounted [] 0)) \<and>
   scheduleRemoval [0x61] 3000 (scheduleRemoval [0x61] 3000 (mounted [] 0)) =
     scheduleRemoval [0x61] 3000 (mounted [] 0) \<and>
   timeouts (fold (\<lambda>p. scheduleRemoval (fst p) (snd p)) [([0x61], 3000), ([0x62], 3000)]
               (scheduleRemoval [0x61] 3000 (mounted [] 0))) =
     [(1, [0x61], 3000), (2, [0x62], 3000)] \<and>
   pending_removals [0x61]
     (fold (\<lambda>p. scheduleRemoval (fst p) (snd p)) [([0x61], 3000), ([0x62], 3000)]
        (scheduleRemoval [0x61] 3000 (mounted [] 0))) = 1 \<and>
   pending_removals [0x61] (timer_fires 1 (scheduleRemoval [0x61] 3000 (mounted [] 0))) = 0"
proof -
  have i0: "timers_inv (mounted [] 0)"
    by (simp add: timers_eval)
  have i1: "timers_inv (scheduleRemoval [0x61] 3000 (mounted [] 0))"
    by (simp add: timers_eval)
  have r: "map_of (removalTimersRef (scheduleRemoval [0x61] 3000 (mounted [] 0))) [0x61] \<noteq> None"
    "(1, [0x61], 3000) \<in> set (timeouts (scheduleRemoval [0x61] 3000 (mounted [] 0)))"
    by (simp_all add: timers_eval)
  have e: "timeouts (fold (\<lambda>p. scheduleRemoval (fst p) (snd p)) [([0x61], 3000), ([0x62], 3000)]
               (scheduleRemoval [0x61] 3000 (mounted [] 0))) =
     [(1, [0x61], 3000), (2, [0x62], 3000)]"
    by (simp add: timers_eval)
  show ?thesis
    using removal_scheduled_once[OF i0, of "[0x61]" 3000 "[([0x61], 3000), ([0x62], 3000)]" 0 0]
      removal_scheduled_once[OF i1, of "[0x61]" 3000 "[]" 1 3000] i0 i1 r e
    by simp
qed

section \<open>Uploads: proofs\<close>

lemma set_progress_keeps [simp]:
  "trace (set_progress i p st) = trace st"
  "map task_id (uploads (set_progress i p st)) = map task_id (uploads st)"
  "timeouts (set_progress i p st) = timeouts st"
  "removalTimersRef (set_progress i p st) = removalTimersRef st"
  "nextTimer (set_progress i p st) = nextTimer st"
  by (simp_all add: set_progress_def comp_def)

lemma mark_done_keeps [simp]:
  "trace (mark_done i st) = trace st"
  "map task_id (uploads (mark_done i st)) = map task_id (uploads st)"
  "timeouts (mark_done i st) = timeouts st"
  "removalTimersRef (mark_done i st) = removalTimersRef st"
  "nextTimer (mark_done i st) = nextTimer st"
  by (simp_all add: mark_done_def comp_def)

lemma mark_error_keeps [simp]:
  "trace (mark_error i st) = trace st"
  "map task_id (uploads (mark_error i st)) = map task_id (uploads st)"
  "timeouts (mark_error i st) = timeouts st"
  "removalTimersRef (mark_error i st) = removalTimersRef st"
  "nextTimer (mark_error i st) = nextTimer st"
  by (simp_all add: mark_error_def comp_def)





lemma upload_next_batch [simp]:
  "snd (upload_next c its k st) = \<lparr>b_chat = c, b_items = its, b_pos = k\<rparr>"
  by (simp add: upload_next_def)

lemma upload_next_keeps [simp]:
  "uploads (fst (upload_next c its k st)) = uploads st"
  "timeouts (fst (upload_next c its k st)) = timeouts st"
  "removalTimersRef (fst (upload_next c its k st)) = removalTimersRef st"
  "nextTimer (fst (upload_next c its k st)) = nextTimer st"
  by (simp_all add: upload_next_def)


lemma beginUpload_batch [simp]:
  "snd (beginUpload c dn files st) =
   \<lparr>b_chat = c, b_items = batch_items c dn files, b_pos = 0\<rparr>"
  by (simp add: beginUpload_def batch_items_def Let_def split: option.splits)


lemma beginUpload_timers [simp]:
  "timeouts (fst (beginUpload c dn files st)) = timeouts st"
  "removalTimersRef (fst (beginUpload c dn files st)) = removalTimersRef st"
  "nextTimer (fst (beginUpload c dn files st)) = nextTimer st"
  by (simp_all add: beginUpload_def Let_def split: option.splits)



lemma upload_progress_keeps [simp]:
  "trace (upload_progress b k p st) = trace st"
  "map task_id (uploads (upload_progress b k p st)) = map task_id (uploads st)"
  "timeouts (upload_progress b k p st) = timeouts st"
  "removalTimersRef (upload_progress b k p st) = removalTimersRef st"
  "nextTimer (upload_progress b k p st) = nextTimer st"
  by (simp_all add: upload_progress_def)





lemma upload_settled_timers:
  "awaiting b \<Longrightarrow>
   timeouts (fst (upload_settled b ok st)) =
     timeouts (scheduleRemoval (task_id (b_items b ! b_pos b)) 3000 st) \<and>
   removalTimersRef (fst (upload_settled b ok st)) =
     removalTimersRef (scheduleRemoval (task_id (b_items b ! b_pos b)) 3000 st) \<and>
   nextTimer (fst (upload_settled b ok st)) =
     nextTimer (scheduleRemoval (task_id (b_items b ! b_pos b)) 3000 st)"
  by (simp add: upload_settled_def Let_def scheduleRemoval_def)

text \<open>The invariant \<open>timers_inv\<close> is kept by the steps of the upload loop.\<close>

lemma timers_inv_cong:
  "timeouts a = timeouts b \<Longrightarrow> removalTimersRef a = removalTimersRef b \<Longrightarrow>
   nextTimer a = nextTimer b \<Longrightarrow> timers_inv a = timers_inv b"
  by (simp add: timers_inv_def)

lemma beginUpload_inv: "timers_inv st \<Longrightarrow> timers_inv (fst (beginUpload c dn files st))"
  by (simp add: timers_inv_def)

lemma upload_progress_inv: "timers_inv st \<Longrightarrow> timers_inv (upload_progress b k p st)"
  by (simp add: timers_inv_def)

lemma upload_settled_inv:
  assumes "timers_inv st"
  shows "timers_inv (fst (upload_settled b ok st))"
proof (cases "awaiting b")
  case False
  then show ?thesis using assms by (simp add: upload_settled_def)
next
  case True
  have "timers_inv (fst (upload_settled b ok st)) =
        timers_inv (scheduleRemoval (task_id (b_items b ! b_pos b)) 3000 st)"
    using upload_settled_timers[OF True, of ok st] by (intro timers_inv_cong) simp_all
  then show ?thesis using scheduleRemoval_inv[OF assms] by simp
qed

lemma remount_timers_inv:
  assumes "timers_inv st"
  shows "timers_inv (remount starter t st)"
  using unmount_timers_inv(2)[OF assms] by (simp add: remount_def mounted_def timers_inv_def)

lemma urun_Nil [simp]: "urun s [] = s"
  by (simp add: urun_def)

lemma urun_Cons [simp]: "urun s (e # evs) = urun (ustep s e) evs"
  by (simp add: urun_def)

lemma urun_snoc: "urun s (evs @ [e]) = ustep (urun s evs) e"
  by (simp add: urun_def)

lemma ustep_timers_inv: "timers_inv (cw s) \<Longrightarrow> timers_inv (cw (ustep s e))"
  by (cases e)
     (simp_all add: Let_def beginUpload_inv upload_progress_inv upload_settled_inv timer_fires_inv)

lemma urun_timers_inv: "timers_inv (cw s) \<Longrightarrow> timers_inv (cw (urun s evs))"
  by (induction evs arbitrary: s) (simp_all add: ustep_timers_inv)





lemma acts_of_append [simp]: "acts_of n (l @ l') = acts_of n l @ acts_of n l'"
  by (simp add: acts_of_def)

lemma acts_of_Cons [simp]:
  "acts_of n ((m, a) # l) = (if m = n then a # acts_of n l else acts_of n l)"
  by (simp add: acts_of_def)

lemma acts_of_Nil [simp]: "acts_of n [] = []"
  by (simp add: acts_of_def)



lemma called_index: "list_all (\<lambda>p. fst p = n) (called n b)"
  by (simp add: called_def)







































end
